theory Spec2Isabelle
  imports Complex_Main "HOL-Library.Product_Lexorder"
begin

section \<open>Python text primitives\<close>

text \<open>
  A Python \<open>str\<close> is modelled as a \<^typ>\<open>string\<close>: a list of characters, each one read
  as a code point in the range U+0000 to U+00FF. The character classes below are the ones
  Python uses for these code points (\<open>str.isspace\<close>, and the \<open>\s\<close>, \<open>\d\<close>, \<open>\w\<close>
  classes of the \<open>re\<close> module on \<open>str\<close> patterns).
\<close>

datatype error = ValueError | IndexError | ZeroDivisionError | OverflowError

definition code :: "char \<Rightarrow> nat" where
  "code c = of_char c"

definition py_isspace :: "char \<Rightarrow> bool" where
  "py_isspace c = (let n = code c in
     (9 \<le> n \<and> n \<le> 13) \<or> (28 \<le> n \<and> n \<le> 32) \<or> n = 133 \<or> n = 160)"

definition py_isdecimal :: "char \<Rightarrow> bool" where
  "py_isdecimal c = (let n = code c in 48 \<le> n \<and> n \<le> 57)"

definition ascii_letter :: "char \<Rightarrow> bool" where
  "ascii_letter c = (let n = code c in (65 \<le> n \<and> n \<le> 90) \<or> (97 \<le> n \<and> n \<le> 122))"

definition hex_lower :: "char \<Rightarrow> bool" where
  "hex_lower c = (let n = code c in (97 \<le> n \<and> n \<le> 102) \<or> (48 \<le> n \<and> n \<le> 57))"

definition py_isword :: "char \<Rightarrow> bool" where
  "py_isword c = (let n = code c in
     (48 \<le> n \<and> n \<le> 57) \<or> (65 \<le> n \<and> n \<le> 90) \<or> n = 95 \<or> (97 \<le> n \<and> n \<le> 122)
     \<or> n = 170 \<or> n = 178 \<or> n = 179 \<or> n = 181 \<or> n = 185 \<or> n = 186
     \<or> (188 \<le> n \<and> n \<le> 190) \<or> (192 \<le> n \<and> n \<le> 214) \<or> (216 \<le> n \<and> n \<le> 246)
     \<or> (248 \<le> n \<and> n \<le> 255))"

definition strip :: "string \<Rightarrow> string" where
  "strip s = rev (dropWhile py_isspace (rev (dropWhile py_isspace s)))"

text \<open>\<open>s.split(c)\<close> for a one-character separator: never the empty list.\<close>

fun split :: "char \<Rightarrow> string \<Rightarrow> string list" where
  "split c [] = [[]]"
| "split c (x # xs) =
     (if x = c then [] # split c xs
      else (case split c xs of [] \<Rightarrow> [[x]] | w # ws \<Rightarrow> (x # w) # ws))"

text \<open>\<open>c.join(xs)\<close>.\<close>

fun join :: "char \<Rightarrow> string list \<Rightarrow> string" where
  "join c [] = []"
| "join c [x] = x"
| "join c (x # y # ys) = x @ c # join c (y # ys)"

text \<open>\<open>s.rsplit(c, 1)\<close>: one split, at the last occurrence of the separator.\<close>

definition rsplit1 :: "char \<Rightarrow> string \<Rightarrow> string list" where
  "rsplit1 c s =
     (if c \<in> set s
      then [rev (tl (dropWhile (\<lambda>x. x \<noteq> c) (rev s))), rev (takeWhile (\<lambda>x. x \<noteq> c) (rev s))]
      else [s])"

text \<open>\<open>p in s\<close> on strings: \<open>p\<close> occurs in \<open>s\<close> as a contiguous substring.\<close>

fun starts_with :: "string \<Rightarrow> string \<Rightarrow> bool" where
  "starts_with [] s = True"
| "starts_with (a # p) [] = False"
| "starts_with (a # p) (b # s) = (a = b \<and> starts_with p s)"

fun contains :: "string \<Rightarrow> string \<Rightarrow> bool" where
  "contains p [] = (p = [])"
| "contains p (x # xs) = (starts_with p (x # xs) \<or> contains p xs)"

text \<open>\<open>xs[i]\<close> on a list, for a non-negative index: out of range raises \<open>IndexError\<close>.\<close>

definition item :: "'a list \<Rightarrow> nat \<Rightarrow> error + 'a" where
  "item xs i = (if i < length xs then Inr (xs ! i) else Inl IndexError)"

section \<open>The regular expressions of the normalizer\<close>

text \<open>
  The fragment of Python's \<open>re\<close> syntax that the seven patterns of
  \<open>normalize_stack_trace\<close> use, with the backtracking semantics of the \<open>re\<close> module:
  \<open>rmatch r s g\<close> lists, in the order the backtracking matcher tries them, every way
  \<open>r\<close> can match a prefix of \<open>s\<close>, as the text left over and the groups captured.
  Quantifiers are greedy and are applied to character classes only, as in all seven
  patterns; \<open>Eos\<close> is \<open>$\<close> (end of text, or just before a final newline);
  \<open>Ahead\<close> is the lookahead \<open>(?=...)\<close>.
\<close>

datatype re =
    Eps
  | Chr char
  | Cls "char \<Rightarrow> bool"
  | Rep nat "char \<Rightarrow> bool"
  | Seq re re
  | Alt re re
  | Opt re
  | Grp nat re
  | Eos
  | Ahead re

type_synonym groups = "(nat \<times> string) list"

fun rmatch :: "re \<Rightarrow> string \<Rightarrow> groups \<Rightarrow> (string \<times> groups) list" where
  "rmatch Eps s g = [(s, g)]"
| "rmatch (Chr c) s g = (case s of [] \<Rightarrow> [] | x # xs \<Rightarrow> if x = c then [(xs, g)] else [])"
| "rmatch (Cls p) s g = (case s of [] \<Rightarrow> [] | x # xs \<Rightarrow> if p x then [(xs, g)] else [])"
| "rmatch (Rep n p) s g =
     map (\<lambda>j. (drop j s, g)) (rev [n ..< Suc (length (takeWhile p s))])"
| "rmatch (Seq a b) s g = concat (map (\<lambda>(s', g'). rmatch b s' g') (rmatch a s g))"
| "rmatch (Alt a b) s g = rmatch a s g @ rmatch b s g"
| "rmatch (Opt a) s g = rmatch a s g @ [(s, g)]"
| "rmatch (Grp i a) s g =
     map (\<lambda>(s', g'). (s', (i, take (length s - length s') s) # g')) (rmatch a s g)"
| "rmatch Eos s g = (if s = [] \<or> s = [CHR 0x0A] then [(s, g)] else [])"
| "rmatch (Ahead a) s g = (if rmatch a s g = [] then [] else [(s, g)])"

text \<open>The match the \<open>re\<close> module reports at the start of \<open>s\<close>: its length and groups.\<close>

definition match_here :: "re \<Rightarrow> string \<Rightarrow> (nat \<times> groups) option" where
  "match_here r s =
     (case rmatch r s [] of [] \<Rightarrow> None | (s', g) # _ \<Rightarrow> Some (length s - length s', g))"

text \<open>\<open>\N\<close> in a replacement template: the text of group \<open>N\<close>, empty when the group took no part.\<close>

definition group :: "groups \<Rightarrow> nat \<Rightarrow> string" where
  "group g i = (case map_of g i of None \<Rightarrow> [] | Some t \<Rightarrow> t)"

text \<open>
  \<open>re.sub(r, repl, s)\<close>: scan left to right, replace each leftmost non-overlapping match.
  \<open>sub_go r repl k s\<close> is the scan with \<open>k\<close> characters of the current match still to
  skip. After an empty match the scan copies one character and moves on.
\<close>

fun sub_go :: "re \<Rightarrow> (groups \<Rightarrow> string) \<Rightarrow> nat \<Rightarrow> string \<Rightarrow> string" where
  "sub_go r repl k [] =
     (if k = 0 then (case match_here r [] of None \<Rightarrow> [] | Some (n, g) \<Rightarrow> repl g) else [])"
| "sub_go r repl k (c # cs) =
     (if 0 < k then sub_go r repl (k - 1) cs
      else (case match_here r (c # cs) of
              None \<Rightarrow> c # sub_go r repl 0 cs
            | Some (n, g) \<Rightarrow>
                if n = 0 then repl g @ c # sub_go r repl 0 cs
                else repl g @ sub_go r repl (n - 1) cs))"

definition re_sub :: "re \<Rightarrow> (groups \<Rightarrow> string) \<Rightarrow> string \<Rightarrow> string" where
  "re_sub r repl s = sub_go r repl 0 s"

definition lit :: "string \<Rightarrow> re" where
  "lit s = foldr (\<lambda>c r. Seq (Chr c) r) s Eps"

fun seqs :: "re list \<Rightarrow> re" where
  "seqs [] = Eps"
| "seqs (r # rs) = Seq r (seqs rs)"

text \<open>\<^verbatim>\<open>\s*\[[a-zA-Z]\]\s*$\<close>\<close>

definition re_annotation :: re where
  "re_annotation =
     seqs [Rep 0 py_isspace, Chr CHR ''['', Cls ascii_letter, Chr CHR '']'', Rep 0 py_isspace, Eos]"

text \<open>\<^verbatim>\<open>_+\s*$\<close>\<close>

definition re_underscores :: re where
  "re_underscores = seqs [Rep 1 (\<lambda>c. c = CHR ''_''), Rep 0 py_isspace, Eos]"

text \<open>\<^verbatim>\<open>snappy-[^-]+-[^-]+-[^-]+-[^-]+-[^-]+-[^-]+-libsnappyjava\.so\<close>\<close>

definition not_dash :: "char \<Rightarrow> bool" where
  "not_dash c = (c \<noteq> CHR ''-'')"

definition re_snappy :: re where
  "re_snappy =
     seqs [lit ''snappy-'',
           Rep 1 not_dash, Chr CHR ''-'', Rep 1 not_dash, Chr CHR ''-'',
           Rep 1 not_dash, Chr CHR ''-'', Rep 1 not_dash, Chr CHR ''-'',
           Rep 1 not_dash, Chr CHR ''-'', Rep 1 not_dash,
           lit ''-libsnappyjava.so'']"

text \<open>\<^verbatim>\<open>(lib\w+)-(\d+\.\d+\.\d+)?-[a-f0-9]+-\d+-[a-f0-9]+-[a-f0-9]+-[a-f0-9]+-([^/]+\.so)\<close>\<close>

definition re_native :: re where
  "re_native =
     seqs [Grp 1 (seqs [lit ''lib'', Rep 1 py_isword]), Chr CHR ''-'',
           Opt (Grp 2 (seqs [Rep 1 py_isdecimal, Chr CHR ''.'', Rep 1 py_isdecimal,
                             Chr CHR ''.'', Rep 1 py_isdecimal])),
           Chr CHR ''-'', Rep 1 hex_lower, Chr CHR ''-'', Rep 1 py_isdecimal,
           Chr CHR ''-'', Rep 1 hex_lower, Chr CHR ''-'', Rep 1 hex_lower,
           Chr CHR ''-'', Rep 1 hex_lower, Chr CHR ''-'',
           Grp 3 (seqs [Rep 1 (\<lambda>c. c \<noteq> CHR ''/''), lit ''.so''])]"

text \<open>The lookahead \<^verbatim>\<open>(?=\$|\.|$)\<close>\<close>

definition re_boundary :: re where
  "re_boundary = Ahead (Alt (Chr CHR ''$'') (Alt (Chr CHR ''.'') Eos))"

text \<open>\<^verbatim>\<open>\$\$[a-f0-9]{3,}(?=\$|\.|$)\<close>\<close>

definition re_hex2 :: re where
  "re_hex2 = seqs [Chr CHR ''$'', Chr CHR ''$'', Rep 3 hex_lower, re_boundary]"

text \<open>\<^verbatim>\<open>\$[a-f0-9]{3,}(?=\$|\.|$)\<close>\<close>

definition re_hex1 :: re where
  "re_hex1 = seqs [Chr CHR ''$'', Rep 3 hex_lower, re_boundary]"

text \<open>\<^verbatim>\<open>\d+\<close>\<close>

definition re_digits :: re where
  "re_digits = Rep 1 py_isdecimal"

section \<open>FlameGraphParser\<close>

text \<open>The body of the loop over the frames in \<open>normalize_stack_trace\<close>.\<close>

definition normalize_frame :: "string \<Rightarrow> string" where
  "normalize_frame frame =
     (let clean_frame = re_sub re_annotation (\<lambda>g. []) frame;
          clean_frame = strip (re_sub re_underscores (\<lambda>g. []) clean_frame);
          normalized_frame = clean_frame;
          normalized_frame =
            (if contains ''libsnappyjava.so'' normalized_frame
             then re_sub re_snappy (\<lambda>g. ''snappy-*-libsnappyjava.so'') normalized_frame
             else normalized_frame);
          normalized_frame =
            re_sub re_native (\<lambda>g. group g 1 @ ''-*-'' @ group g 3) normalized_frame;
          normalized_frame = re_sub re_hex2 (\<lambda>g. ''$$*'') normalized_frame;
          normalized_frame = re_sub re_hex1 (\<lambda>g. ''$*'') normalized_frame;
          normalized_frame = re_sub re_digits (\<lambda>g. ''*'') normalized_frame
      in normalized_frame)"

definition normalize_stack_trace :: "string \<Rightarrow> string" where
  "normalize_stack_trace stack_trace =
     join CHR '';'' (map normalize_frame (split CHR '';'' stack_trace))"

text \<open>
  \<open>int(s)\<close> on a string: surrounding whitespace is ignored, then an optional sign and
  decimal digits, where single underscores may stand between digits; anything else raises
  \<open>ValueError\<close>. (The interpreter's configurable limit on the length of the literal is
  not modelled.)
\<close>

fun int_digits :: "bool \<Rightarrow> int \<Rightarrow> string \<Rightarrow> error + int" where
  "int_digits prev acc [] = (if prev then Inr acc else Inl ValueError)"
| "int_digits prev acc (c # cs) =
     (if py_isdecimal c then int_digits True (acc * 10 + (int (code c) - 48)) cs
      else if c = CHR ''_'' \<and> prev then int_digits False acc cs
      else Inl ValueError)"

definition py_int :: "string \<Rightarrow> error + int" where
  "py_int s =
     (case strip s of
        [] \<Rightarrow> Inl ValueError
      | c # cs \<Rightarrow>
          if c = CHR ''-'' then (case int_digits False 0 cs of Inl e \<Rightarrow> Inl e | Inr n \<Rightarrow> Inr (- n))
          else if c = CHR ''+'' then int_digits False 0 cs
          else int_digits False 0 (c # cs))"

text \<open>
  A frequency table (\<open>defaultdict(int)\<close>) is an association list in insertion order.
  \<open>add_count k n t\<close> is \<open>t[k] += n\<close>: a missing key starts from 0.
\<close>

type_synonym table = "(string \<times> int) list"

fun add_count :: "string \<Rightarrow> int \<Rightarrow> table \<Rightarrow> table" where
  "add_count k n [] = [(k, 0 + n)]"
| "add_count k n ((k', v) # t) =
     (if k' = k then (k', v + n) # t else (k', v) # add_count k n t)"

text \<open>The \<open>try\<close> block of \<open>parse_file\<close>, on the parts of one line.\<close>

definition try_block :: "string list \<Rightarrow> table \<times> int \<Rightarrow> error + table \<times> int" where
  "try_block parts st =
     (case item parts 0 of
        Inl e \<Rightarrow> Inl e
      | Inr p0 \<Rightarrow>
          (let stack_trace = strip p0 in
           case item parts 1 of
             Inl e \<Rightarrow> Inl e
           | Inr p1 \<Rightarrow>
               (case py_int (strip p1) of
                  Inl e \<Rightarrow> Inl e
                | Inr count \<Rightarrow>
                    (let normalized_stack = normalize_stack_trace stack_trace
                     in Inr (add_count normalized_stack count (fst st), snd st + count)))))"

text \<open>
  One turn of the loop of \<open>parse_file\<close>: blank lines and lines that do not split in two
  are passed over; \<open>except ValueError\<close> passes the line over too, any other exception
  leaves the loop.
\<close>

definition parse_line :: "string \<Rightarrow> table \<times> int \<Rightarrow> error + table \<times> int" where
  "parse_line line st =
     (if strip line = [] then Inr st
      else (let parts = rsplit1 CHR '' '' line in
            if length parts \<noteq> 2 then Inr st
            else (case try_block parts st of
                    Inl ValueError \<Rightarrow> Inr st
                  | Inl e \<Rightarrow> Inl e
                  | Inr st' \<Rightarrow> Inr st')))"

fun parse_lines :: "string list \<Rightarrow> table \<times> int \<Rightarrow> error + table \<times> int" where
  "parse_lines [] st = Inr st"
| "parse_lines (line # rest) st =
     (case parse_line line st of Inl e \<Rightarrow> Inl e | Inr st' \<Rightarrow> parse_lines rest st')"

definition parse_file :: "string \<Rightarrow> error + table \<times> int" where
  "parse_file file_content = parse_lines (split CHR 0x0A (strip file_content)) ([], 0)"

section \<open>FlameGraphDiffer\<close>

subsection \<open>Floats\<close>

text \<open>
  A Python \<open>float\<close> is a finite value, an infinity or NaN. Finite values are modelled as
  exact rationals, so the rounding error of binary floating point is outside the model; what
  is in the model is the range of a double: an operation whose exact result has a magnitude
  of \<open>2^1024 - 2^970\<close> or more (the least magnitude that rounds beyond the largest
  double) overflows. Integer division \<open>a / b\<close> then raises \<open>OverflowError\<close>, and raises
  \<open>ZeroDivisionError\<close> when \<open>b\<close> is 0; float multiplication and subtraction give an
  infinity instead, and NaN for \<open>inf - inf\<close> and \<open>inf * 0\<close>. An \<open>int\<close> operand of a
  float operation, such as the \<open>0\<close> of a percentage against an empty total, is the finite
  float of the same value.
\<close>

datatype pyfloat = Fin rat | PInf | NInf | NaN

definition overflow_bound :: rat where
  "overflow_bound = 2 ^ 1024 - 2 ^ 970"

text \<open>The float that an operation with the exact result \<open>x\<close> returns.\<close>

definition to_float :: "rat \<Rightarrow> pyfloat" where
  "to_float x =
     (if overflow_bound \<le> x then PInf else if x \<le> - overflow_bound then NInf else Fin x)"

definition truediv :: "int \<Rightarrow> int \<Rightarrow> error + pyfloat" where
  "truediv a b =
     (if b = 0 then Inl ZeroDivisionError
      else if overflow_bound \<le> \<bar>of_int a / of_int b\<bar> then Inl OverflowError
      else Inr (Fin (of_int a / of_int b)))"

fun fmul :: "pyfloat \<Rightarrow> pyfloat \<Rightarrow> pyfloat" where
  "fmul (Fin a) (Fin b) = to_float (a * b)"
| "fmul NaN y = NaN"
| "fmul x NaN = NaN"
| "fmul PInf (Fin b) = (if 0 < b then PInf else if b < 0 then NInf else NaN)"
| "fmul NInf (Fin b) = (if 0 < b then NInf else if b < 0 then PInf else NaN)"
| "fmul (Fin a) PInf = (if 0 < a then PInf else if a < 0 then NInf else NaN)"
| "fmul (Fin a) NInf = (if 0 < a then NInf else if a < 0 then PInf else NaN)"
| "fmul PInf PInf = PInf"
| "fmul PInf NInf = NInf"
| "fmul NInf PInf = NInf"
| "fmul NInf NInf = PInf"

fun fsub :: "pyfloat \<Rightarrow> pyfloat \<Rightarrow> pyfloat" where
  "fsub (Fin a) (Fin b) = to_float (a - b)"
| "fsub NaN y = NaN"
| "fsub x NaN = NaN"
| "fsub PInf PInf = NaN"
| "fsub NInf NInf = NaN"
| "fsub PInf y = PInf"
| "fsub NInf y = NInf"
| "fsub (Fin a) PInf = NInf"
| "fsub (Fin a) NInf = PInf"

text \<open>\<open>abs(x)\<close>.\<close>

fun fabs :: "pyfloat \<Rightarrow> pyfloat" where
  "fabs (Fin a) = Fin \<bar>a\<bar>"
| "fabs PInf = PInf"
| "fabs NInf = PInf"
| "fabs NaN = NaN"

text \<open>\<open>x < y\<close> and \<open>x >= y\<close>: every comparison with NaN is false.\<close>

fun flt :: "pyfloat \<Rightarrow> pyfloat \<Rightarrow> bool" where
  "flt NaN y = False"
| "flt x NaN = False"
| "flt (Fin a) (Fin b) = (a < b)"
| "flt (Fin a) PInf = True"
| "flt (Fin a) NInf = False"
| "flt PInf y = False"
| "flt NInf NInf = False"
| "flt NInf y = True"

fun fge :: "pyfloat \<Rightarrow> pyfloat \<Rightarrow> bool" where
  "fge NaN y = False"
| "fge x NaN = False"
| "fge (Fin a) (Fin b) = (b \<le> a)"
| "fge (Fin a) PInf = False"
| "fge (Fin a) NInf = True"
| "fge PInf y = True"
| "fge NInf NInf = True"
| "fge NInf y = False"

text \<open>
  \<open>round(x, 2)\<close>: a finite value is rounded to the nearest multiple of 1/100, a tie going
  to the even neighbour; an infinity and NaN are returned as they are.
\<close>

definition round_half_even :: "rat \<Rightarrow> int" where
  "round_half_even y =
     (let f = \<lfloor>y\<rfloor>; d = y - of_int f in
      if d < 1 / 2 then f else if 1 / 2 < d then f + 1 else if even f then f else f + 1)"

definition round2 :: "rat \<Rightarrow> rat" where
  "round2 x = of_int (round_half_even (x * 100)) / 100"

fun fround2 :: "pyfloat \<Rightarrow> pyfloat" where
  "fround2 (Fin a) = Fin (round2 a)"
| "fround2 x = x"

subsection \<open>\<open>list.sort\<close>\<close>

text \<open>
  \<open>list.sort\<close> compares with \<open><\<close> only. The functions below are CPython's algorithm
  for a list of fewer than 64 elements: \<open>count_run\<close> finds the run at the start of the
  list, non-descending, or strictly descending and then reversed, and \<open>binarysort\<close> inserts
  the elements after it one at a time, at the place a binary search finds. On a longer list
  CPython sorts pieces this way and merges them; the result is the same whenever \<open><\<close>
  orders the keys, the stable sorting of a list being unique, so the model differs from
  CPython only on a list of 64 or more elements with a NaN key.
\<close>

fun asc_run :: "('a \<Rightarrow> 'a \<Rightarrow> bool) \<Rightarrow> 'a \<Rightarrow> 'a list \<Rightarrow> nat" where
  "asc_run lt p [] = 0"
| "asc_run lt p (x # xs) = (if lt x p then 0 else Suc (asc_run lt x xs))"

fun desc_run :: "('a \<Rightarrow> 'a \<Rightarrow> bool) \<Rightarrow> 'a \<Rightarrow> 'a list \<Rightarrow> nat" where
  "desc_run lt p [] = 0"
| "desc_run lt p (x # xs) = (if lt x p then Suc (desc_run lt x xs) else 0)"

text \<open>The length of the first run, and whether it is descending.\<close>

fun count_run :: "('a \<Rightarrow> 'a \<Rightarrow> bool) \<Rightarrow> 'a list \<Rightarrow> nat \<times> bool" where
  "count_run lt [] = (0, False)"
| "count_run lt [x] = (1, False)"
| "count_run lt (x # y # rest) =
     (if lt y x then (2 + desc_run lt y rest, True)
      else (2 + asc_run lt y rest, False))"

text \<open>
  The binary search of \<open>binarysort\<close> for the place of \<open>pivot\<close> in the sorted list
  \<open>pre\<close>, between the indices \<open>l\<close> and \<open>r\<close>; the index \<open>p\<close> it reads is below
  \<open>r\<close>, which is at most the length of \<open>pre\<close>.
\<close>

function bsearch :: "('a \<Rightarrow> 'a \<Rightarrow> bool) \<Rightarrow> 'a \<Rightarrow> 'a list \<Rightarrow> nat \<Rightarrow> nat \<Rightarrow> nat" where
  "bsearch lt pivot pre l r =
     (if l < r
      then (if lt pivot (pre ! (l + (r - l) div 2))
            then bsearch lt pivot pre l (l + (r - l) div 2)
            else bsearch lt pivot pre (l + (r - l) div 2 + 1) r)
      else l)"
  by pat_completeness auto
termination
  by (relation "measure (\<lambda>(lt, pivot, pre, l, r). r - l)") auto

declare bsearch.simps [simp del]

definition binary_insert :: "('a \<Rightarrow> 'a \<Rightarrow> bool) \<Rightarrow> 'a list \<Rightarrow> 'a \<Rightarrow> 'a list" where
  "binary_insert lt pre pivot =
     (let l = bsearch lt pivot pre 0 (length pre) in take l pre @ pivot # drop l pre)"

definition binarysort :: "('a \<Rightarrow> 'a \<Rightarrow> bool) \<Rightarrow> 'a list \<Rightarrow> 'a list \<Rightarrow> 'a list" where
  "binarysort lt pre rest = foldl (binary_insert lt) pre rest"

definition list_sort :: "('a \<Rightarrow> 'a \<Rightarrow> bool) \<Rightarrow> 'a list \<Rightarrow> 'a list" where
  "list_sort lt xs =
     (if length xs < 2 then xs
      else (case count_run lt xs of
              (n, descending) \<Rightarrow>
                binarysort lt (if descending then rev (take n xs) else take n xs)
                  (drop n xs)))"

subsection \<open>\<open>calculate_diff\<close>\<close>

record stack_info =
  stack :: string
  old_count :: int
  new_count :: int
  old_percent :: pyfloat
  new_percent :: pyfloat
  diff_count :: int
  diff_percent :: pyfloat

record summary =
  old_total :: int
  new_total :: int
  total_change :: int
  total_change_percent :: pyfloat

record diff_results =
  added :: "stack_info list"
  removed :: "stack_info list"
  increased :: "stack_info list"
  decreased :: "stack_info list"
  unchanged :: "stack_info list"
  summary :: summary

text \<open>\<open>d.get(k, 0)\<close>.\<close>

definition get :: "table \<Rightarrow> string \<Rightarrow> int" where
  "get d k = (case map_of d k of None \<Rightarrow> 0 | Some v \<Rightarrow> v)"

text \<open>\<open>(count / total * 100) if total > 0 else 0\<close>.\<close>

definition percent :: "int \<Rightarrow> int \<Rightarrow> error + pyfloat" where
  "percent count tot =
     (if 0 < tot
      then (case truediv count tot of Inl e \<Rightarrow> Inl e | Inr q \<Rightarrow> Inr (fmul q (Fin 100)))
      else Inr (Fin 0))"

text \<open>The summary that \<open>calculate_diff\<close> builds first.\<close>

definition make_summary :: "int \<Rightarrow> int \<Rightarrow> error + summary" where
  "make_summary ot nt =
     (case percent (nt - ot) ot of
        Inl e \<Rightarrow> Inl e
      | Inr p \<Rightarrow>
          Inr \<lparr>old_total = ot, new_total = nt, total_change = nt - ot,
               total_change_percent = p\<rparr>)"

text \<open>The record \<open>stack_info\<close> that the loop of \<open>calculate_diff\<close> builds for one stack.\<close>

definition make_info :: "table \<Rightarrow> table \<Rightarrow> int \<Rightarrow> int \<Rightarrow> string \<Rightarrow> error + stack_info" where
  "make_info old_stacks new_stacks ot nt s =
     (let oc = get old_stacks s; nc = get new_stacks s in
      case percent oc ot of
        Inl e \<Rightarrow> Inl e
      | Inr op \<Rightarrow>
          (case percent nc nt of
             Inl e \<Rightarrow> Inl e
           | Inr np \<Rightarrow>
               Inr \<lparr>stack = s, old_count = oc, new_count = nc,
                    old_percent = fround2 op, new_percent = fround2 np,
                    diff_count = nc - oc, diff_percent = fround2 (fsub np op)\<rparr>))"

text \<open>The \<open>if\<close>/\<open>elif\<close> chain: the record is appended to one of the five lists.\<close>

definition classify :: "stack_info \<Rightarrow> diff_results \<Rightarrow> diff_results" where
  "classify i r =
     (if old_count i = 0 \<and> 0 < new_count i then r\<lparr>added := added r @ [i]\<rparr>
      else if 0 < old_count i \<and> new_count i = 0 then r\<lparr>removed := removed r @ [i]\<rparr>
      else if 0 < diff_count i then r\<lparr>increased := increased r @ [i]\<rparr>
      else if diff_count i < 0 then r\<lparr>decreased := decreased r @ [i]\<rparr>
      else r\<lparr>unchanged := unchanged r @ [i]\<rparr>)"

fun diff_loop ::
  "table \<Rightarrow> table \<Rightarrow> int \<Rightarrow> int \<Rightarrow> string list \<Rightarrow> diff_results \<Rightarrow> error + diff_results" where
  "diff_loop old_stacks new_stacks ot nt [] r = Inr r"
| "diff_loop old_stacks new_stacks ot nt (s # rest) r =
     (case make_info old_stacks new_stacks ot nt s of
        Inl e \<Rightarrow> Inl e
      | Inr i \<Rightarrow> diff_loop old_stacks new_stacks ot nt rest (classify i r))"

text \<open>
  \<open>xs.sort(key=lambda x: abs(x['diff_percent']), reverse=True)\<close>: with \<open>reverse\<close> the
  list is reversed, sorted, and reversed again.
\<close>

definition sort_key_less :: "stack_info \<Rightarrow> stack_info \<Rightarrow> bool" where
  "sort_key_less a b = flt (fabs (diff_percent a)) (fabs (diff_percent b))"

definition sort_desc :: "stack_info list \<Rightarrow> stack_info list" where
  "sort_desc xs = rev (list_sort sort_key_less (rev xs))"

text \<open>
  \<open>calculate_diff\<close>. The set \<open>all_stacks\<close> is given as the list of its elements in the
  order in which the \<open>for\<close> loop visits them, which Python leaves open;
  \<open>is_all_stacks\<close> says that the list is such an enumeration of
  \<open>set(old_stacks.keys()) | set(new_stacks.keys())\<close>. \<open>classified\<close> is \<open>results\<close>
  when the \<open>for\<close> loop over the stacks has ended, before the categories are sorted.
\<close>

definition is_all_stacks :: "string list \<Rightarrow> table \<Rightarrow> table \<Rightarrow> bool" where
  "is_all_stacks all_stacks old_stacks new_stacks =
     (distinct all_stacks \<and> set all_stacks = set (map fst old_stacks) \<union> set (map fst new_stacks))"

definition classified ::
  "string list \<Rightarrow> table \<Rightarrow> table \<Rightarrow> int \<Rightarrow> int \<Rightarrow> error + diff_results" where
  "classified all_stacks old_stacks new_stacks ot nt =
     (case make_summary ot nt of
        Inl e \<Rightarrow> Inl e
      | Inr sm \<Rightarrow>
          diff_loop old_stacks new_stacks ot nt all_stacks
            \<lparr>added = [], removed = [], increased = [], decreased = [],
             unchanged = [], summary = sm\<rparr>)"

definition calculate_diff ::
  "string list \<Rightarrow> table \<Rightarrow> table \<Rightarrow> int \<Rightarrow> int \<Rightarrow> error + diff_results" where
  "calculate_diff all_stacks old_stacks new_stacks ot nt =
     (case classified all_stacks old_stacks new_stacks ot nt of
        Inl e \<Rightarrow> Inl e
      | Inr r \<Rightarrow>
          Inr (r\<lparr>added := sort_desc (added r), removed := sort_desc (removed r),
                 increased := sort_desc (increased r),
                 decreased := sort_desc (decreased r)\<rparr>))"

section \<open>The correlation report of \<open>debug_stacks\<close>\<close>

text \<open>
  The leaf identifier of a stack: the last \<open>;\<close>-separated part, and of that the last
  \<open>/\<close>-separated part when it contains a \<open>/\<close>; no identifier when the split gives no
  parts. \<open>xs[-1]\<close> raises \<open>IndexError\<close> on an empty list.
\<close>

definition last_item :: "'a list \<Rightarrow> error + 'a" where
  "last_item xs = (if xs = [] then Inl IndexError else Inr (last xs))"

definition last_method :: "string \<Rightarrow> error + string option" where
  "last_method s =
     (let stack_parts = split CHR '';'' s in
      if stack_parts \<noteq> []
      then (case last_item stack_parts of
              Inl e \<Rightarrow> Inl e
            | Inr l \<Rightarrow>
                if CHR ''/'' \<in> set l
                then (case last_item (split CHR ''/'' l) of Inl e \<Rightarrow> Inl e | Inr m \<Rightarrow> Inr (Some m))
                else Inr (Some l))
      else Inr None)"

text \<open>The loop that collects the leaf identifiers of a list of records into a set.\<close>

fun methods :: "stack_info list \<Rightarrow> string set \<Rightarrow> error + string set" where
  "methods [] acc = Inr acc"
| "methods (i # rest) acc =
     (case last_method (stack i) of
        Inl e \<Rightarrow> Inl e
      | Inr None \<Rightarrow> methods rest acc
      | Inr (Some m) \<Rightarrow> methods rest (insert m acc))"

text \<open>An entry of \<open>examples\<close>; its key \<open>method\<close> is the field \<open>method_name\<close>.\<close>

record example =
  method_name :: string
  added_example :: string
  removed_example :: string

record report_summary =
  total_added :: nat
  total_removed :: nat
  total_increased :: nat
  total_decreased :: nat

record report =
  common_methods_count :: nat
  common_methods :: "string list"
  examples :: "example list"
  report_summary :: report_summary

text \<open>The loop that builds the examples, over the methods it is given.\<close>

fun build_examples :: "diff_results \<Rightarrow> string list \<Rightarrow> example list \<Rightarrow> error + example list" where
  "build_examples d [] acc = Inr acc"
| "build_examples d (m # rest) acc =
     (let added_examples = filter (\<lambda>i. contains m (stack i)) (added d);
          removed_examples = filter (\<lambda>i. contains m (stack i)) (removed d)
      in if added_examples \<noteq> [] \<and> removed_examples \<noteq> []
         then (case item added_examples 0 of
                 Inl e \<Rightarrow> Inl e
               | Inr a \<Rightarrow>
                   (case item removed_examples 0 of
                      Inl e \<Rightarrow> Inl e
                    | Inr b \<Rightarrow>
                        build_examples d rest
                          (acc @ [\<lparr>method_name = m, added_example = stack a,
                                   removed_example = stack b\<rparr>])))
         else build_examples d rest acc)"

text \<open>
  The report that \<open>debug_stacks\<close> computes from a diff result. \<open>listing\<close> is
  \<open>list(common_methods)\<close>: the elements of the set \<open>common_methods\<close> in the order
  Python happens to iterate it; \<open>is_listing\<close> says that a list is such an enumeration.
\<close>

definition is_listing :: "string list \<Rightarrow> string set \<Rightarrow> bool" where
  "is_listing listing S = (distinct listing \<and> set listing = S)"

definition correlate :: "string list \<Rightarrow> diff_results \<Rightarrow> error + report" where
  "correlate listing d =
     (case methods (added d) {} of
        Inl e \<Rightarrow> Inl e
      | Inr added_methods \<Rightarrow>
          (case methods (removed d) {} of
             Inl e \<Rightarrow> Inl e
           | Inr removed_methods \<Rightarrow>
               (let common = added_methods \<inter> removed_methods in
                case build_examples d (take 5 listing) [] of
                  Inl e \<Rightarrow> Inl e
                | Inr ex \<Rightarrow>
                    Inr \<lparr>common_methods_count = card common,
                         common_methods = take 10 listing,
                         examples = ex,
                         report_summary =
                           \<lparr>total_added = length (added d), total_removed = length (removed d),
                            total_increased = length (increased d),
                            total_decreased = length (decreased d)\<rparr>\<rparr>)))"

section \<open>Invariants used in the proofs\<close>


text \<open>
  The conditions of the \<open>if\<close>/\<open>elif\<close> chain of \<open>calculate_diff\<close>, each with the negation
  of the ones before it.
\<close>

definition is_added :: "stack_info \<Rightarrow> bool" where
  "is_added i = (old_count i = 0 \<and> 0 < new_count i)"

definition is_removed :: "stack_info \<Rightarrow> bool" where
  "is_removed i = (\<not> is_added i \<and> 0 < old_count i \<and> new_count i = 0)"

definition is_increased :: "stack_info \<Rightarrow> bool" where
  "is_increased i = (\<not> is_added i \<and> \<not> is_removed i \<and> 0 < diff_count i)"

definition is_decreased :: "stack_info \<Rightarrow> bool" where
  "is_decreased i = (\<not> is_added i \<and> \<not> is_removed i \<and> \<not> 0 < diff_count i \<and> diff_count i < 0)"

definition is_unchanged :: "stack_info \<Rightarrow> bool" where
  "is_unchanged i =
     (\<not> is_added i \<and> \<not> is_removed i \<and> \<not> 0 < diff_count i \<and> \<not> diff_count i < 0)"

text \<open>All records of a diff result, category after category.\<close>

definition all_records :: "diff_results \<Rightarrow> stack_info list" where
  "all_records r = added r @ removed r @ increased r @ decreased r @ unchanged r"

text \<open>
  A list of records is in descending order of \<open>abs(diff_percent)\<close>: of any two adjacent
  records \<open>r1\<close>, \<open>r2\<close> the test \<open>abs(r1.diff_percent) >= abs(r2.diff_percent)\<close> is true.
\<close>

fun descending :: "stack_info list \<Rightarrow> bool" where
  "descending [] = True"
| "descending [x] = True"
| "descending (x # y # ys) =
     (fge (fabs (diff_percent x)) (fabs (diff_percent y)) \<and> descending (y # ys))"

text \<open>
  The leaf identifier in the words of the specification: the last \<open>;\<close>-delimited
  component of the stack signature, then the last \<open>/\<close>-delimited component of that. It
  is compared with \<open>last_method\<close>, which follows the code, below.
\<close>

definition leaf_identifier :: "string \<Rightarrow> string" where
  "leaf_identifier s = last (split CHR ''/'' (last (split CHR '';'' s)))"

text \<open>The leaf identifiers of a list of records, and the example built for one of them.\<close>

definition leaves :: "stack_info list \<Rightarrow> string set" where
  "leaves xs = leaf_identifier ` stack ` set xs"

definition first_with :: "string \<Rightarrow> stack_info list \<Rightarrow> stack_info option" where
  "first_with m xs = find (\<lambda>i. contains m (stack i)) xs"

definition example_for :: "diff_results \<Rightarrow> string \<Rightarrow> example option" where
  "example_for d m =
     (case first_with m (added d) of
        None \<Rightarrow> None
      | Some a \<Rightarrow>
          (case first_with m (removed d) of
             None \<Rightarrow> None
           | Some b \<Rightarrow>
               Some \<lparr>method_name = m, added_example = stack a, removed_example = stack b\<rparr>))"

text \<open>A diff result on which the correlation report is evaluated below.\<close>

definition sample_diff :: diff_results where
  "sample_diff =
     \<lparr>added =
        [\<lparr>stack = ''a;x/run'', old_count = 0, new_count = 1, old_percent = Fin 0,
          new_percent = Fin 50, diff_count = 1, diff_percent = Fin 50\<rparr>,
         \<lparr>stack = ''b;lib/run'', old_count = 0, new_count = 1, old_percent = Fin 0,
          new_percent = Fin 50, diff_count = 1, diff_percent = Fin 50\<rparr>],
      removed =
        [\<lparr>stack = ''c;walk'', old_count = 1, new_count = 0, old_percent = Fin 50,
          new_percent = Fin 0, diff_count = - 1, diff_percent = Fin (- 50)\<rparr>,
         \<lparr>stack = ''c;run'', old_count = 1, new_count = 0, old_percent = Fin 50,
          new_percent = Fin 0, diff_count = - 1, diff_percent = Fin (- 50)\<rparr>],
      increased = [], decreased = [], unchanged = [],
      summary = \<lparr>old_total = 2, new_total = 2, total_change = 0,
                 total_change_percent = Fin 0\<rparr>\<rparr>"

text \<open>
  The characters of a plain stack trace: no whitespace and none of \<open>]\<close>, \<open>_\<close>, \<open>-\<close>,
  \<open>$\<close>, the characters that the patterns before the digit pattern need.
\<close>

definition plain_char :: "char \<Rightarrow> bool" where
  "plain_char c =
     (\<not> py_isspace c \<and> c \<noteq> CHR '']'' \<and> c \<noteq> CHR ''_'' \<and> c \<noteq> CHR ''-'' \<and> c \<noteq> CHR ''$'')"

text \<open>\<open>needs c r\<close>: every match of \<open>r\<close> contains the character \<open>c\<close> literally.\<close>

fun needs :: "char \<Rightarrow> re \<Rightarrow> bool" where
  "needs c (Chr d) = (c = d)"
| "needs c (Seq a b) = (needs c a \<or> needs c b)"
| "needs c (Alt a b) = (needs c a \<and> needs c b)"
| "needs c (Grp i a) = needs c a"
| "needs c r = False"



section \<open>The parser\<close>

subsection \<open>Splitting and stripping\<close>

lemma rsplit1_at_last:
  assumes "c \<notin> set b"
  shows "rsplit1 c (a @ c # b) = [a, b]"
proof -
  have r: "rev (a @ c # b) = rev b @ c # rev a" by simp
  have t: "takeWhile (\<lambda>x. x \<noteq> c) (rev b @ c # rev a) = rev b"
    using assms by (auto simp: takeWhile_tail)
  have d: "dropWhile (\<lambda>x. x \<noteq> c) (rev b @ c # rev a) = c # rev a"
  proof -
    have "dropWhile (\<lambda>x. x \<noteq> c) (rev b @ c # rev a) = dropWhile (\<lambda>x. x \<noteq> c) (c # rev a)"
      using assms by (intro dropWhile_append2) auto
    then show ?thesis by simp
  qed
  show ?thesis unfolding rsplit1_def r t d by simp
qed

lemma rsplit1_no_sep: "c \<notin> set s \<Longrightarrow> rsplit1 c s = [s]"
  by (simp add: rsplit1_def)

lemma strip_empty_iff: "strip s = [] \<longleftrightarrow> (\<forall>c \<in> set s. py_isspace c)"
proof
  assume "strip s = []"
  then have "dropWhile py_isspace (rev (dropWhile py_isspace s)) = []"
    by (simp add: strip_def)
  then have "\<forall>c \<in> set (dropWhile py_isspace s). py_isspace c"
    by (simp add: dropWhile_eq_Nil_conv)
  moreover have "dropWhile py_isspace s \<noteq> [] \<Longrightarrow> \<not> py_isspace (hd (dropWhile py_isspace s))"
    by (rule hd_dropWhile)
  ultimately have "dropWhile py_isspace s = []"
    by (cases "dropWhile py_isspace s") auto
  then show "\<forall>c \<in> set s. py_isspace c" by (simp add: dropWhile_eq_Nil_conv)
next
  assume "\<forall>c \<in> set s. py_isspace c"
  then have "dropWhile py_isspace s = []" by (induction s) auto
  then show "strip s = []" by (simp only: strip_def rev.simps dropWhile.simps)
qed

lemma set_strip: "set (strip s) \<subseteq> set s"
proof -
  have "set (strip s) \<subseteq> set (dropWhile py_isspace s)"
    unfolding strip_def using set_dropWhileD [of _ py_isspace "rev (dropWhile py_isspace s)"]
    by auto
  also have "\<dots> \<subseteq> set s" using set_dropWhileD [of _ py_isspace s] by auto
  finally show ?thesis .
qed

subsection \<open>No exception leaves the loop\<close>

lemma int_digits_error: "int_digits prev acc s = Inl e \<Longrightarrow> e = ValueError"
  by (induction s arbitrary: prev acc) (auto split: if_splits)

lemma py_int_error: "py_int s = Inl e \<Longrightarrow> e = ValueError"
  by (auto simp: py_int_def split: list.splits if_splits sum.splits dest: int_digits_error)

lemma try_block_two:
  "try_block [p0, p1] st =
     (case py_int (strip p1) of
        Inl e \<Rightarrow> Inl e
      | Inr count \<Rightarrow>
          Inr (add_count (normalize_stack_trace (strip p0)) count (fst st), snd st + count))"
  by (simp add: try_block_def item_def Let_def split: sum.splits)

lemma try_block_error:
  assumes l: "length parts = 2" and t: "try_block parts st = Inl e"
  shows "e = ValueError"
proof -
  from l obtain p0 p1 where p: "parts = [p0, p1]"
    by (cases parts; cases "tl parts") auto
  from t show ?thesis unfolding p try_block_two
    by (auto split: sum.splits dest: py_int_error)
qed




subsection \<open>Conservation of the samples\<close>








subsection \<open>The count segment\<close>

text \<open>
  Claim C4, as stated, fails: the line \<open>a;b -5\<close> is not skipped; its count \<open>-5\<close> is
  stored in the table and added to the total.
\<close>

theorem negative_count_accepted:
  "parse_file ''a;b -5'' = Inr ([(''a;b'', - 5)], - 5)"
  by code_simp

text \<open>
  Claim C4, amended: a line is split at its last space into a stack text and a count text.
  When \<open>int\<close> rejects the stripped count text (it is not an optionally signed decimal
  integer literal) the line is skipped: table and total stay as they are. When \<open>int\<close>
  accepts it, the count, negative or not, is added to the entry of the normalized stack and
  to the total; so the values of a table are integers of either sign.
\<close>

theorem parse_line_count_segment:
  assumes "CHR '' '' \<notin> set count_text"
  shows "parse_line (stack_text @ CHR '' '' # count_text) st =
     (case py_int (strip count_text) of
        Inl e \<Rightarrow> Inr st
      | Inr n \<Rightarrow>
          Inr (add_count (normalize_stack_trace (strip stack_text)) n (fst st), snd st + n))"
proof -
  let ?line = "stack_text @ CHR '' '' # count_text"
  have parts: "rsplit1 CHR '' '' ?line = [stack_text, count_text]"
    using assms by (rule rsplit1_at_last)
  show ?thesis
  proof (cases "py_int (strip count_text)")
    case (Inl e)
    then have "e = ValueError" by (rule py_int_error)
    with Inl show ?thesis
      by (simp add: parse_line_def parts try_block_two)
  next
    case (Inr n)
    then have "strip (strip count_text) \<noteq> []" by (auto simp: py_int_def)
    then obtain c where "c \<in> set (strip count_text)" "\<not> py_isspace c"
      using strip_empty_iff by blast
    then have "c \<in> set count_text" "\<not> py_isspace c"
      using set_strip [of count_text] by auto
    then have "strip ?line \<noteq> []" using strip_empty_iff [of ?line] by auto
    with Inr show ?thesis
      by (simp add: parse_line_def parts try_block_two)
  qed
qed

theorem parse_line_count_segment_witness:
  "CHR '' '' \<notin> set ''5x'' \<and> parse_line ''a;b 5x'' ([], 0) = Inr ([], 0) \<and>
   CHR '' '' \<notin> set ''-5'' \<and> parse_line ''a;b -5'' ([], 0) = Inr ([(''a;b'', - 5)], - 5)"
proof -
  have h1: "CHR '' '' \<notin> set ''5x''" by simp
  have h2: "CHR '' '' \<notin> set ''-5''" by simp
  have e1: "py_int (strip ''5x'') = Inl ValueError" by code_simp
  have e2: "py_int (strip ''-5'') = Inr (- 5)" by code_simp
  have n: "normalize_stack_trace (strip ''a;b'') = ''a;b''" by code_simp
  have "parse_line ''a;b 5x'' ([], 0) = Inr ([], 0)"
    using parse_line_count_segment [OF h1, of "''a;b''" "([], 0)"] by (simp add: e1)
  moreover have "parse_line ''a;b -5'' ([], 0) = Inr ([(''a;b'', - 5)], - 5)"
    using parse_line_count_segment [OF h2, of "''a;b''" "([], 0)"] by (simp add: e2 n)
  ultimately show ?thesis using h1 h2 by simp
qed

subsection \<open>Where a line is split\<close>

text \<open>
  Claim C5, as stated, fails: the line \<open>a;b<TAB>5\<close>, whose stack and count are separated
  by a tab only, is not split; it is skipped, and the table stays empty.
\<close>

theorem tab_separated_line_skipped:
  "parse_file (''a;b'' @ [CHR 0x09] @ ''5'') = Inr ([], 0)"
  by code_simp

text \<open>
  Claim C5, amended: the parser splits a line at its last space character (U+0020), not at
  other whitespace. A line with no space character, such as one whose stack and count are
  separated by a tab only, is skipped. A non-blank line with a space is split at the last
  one into the stack text before it and the count text after it, and the \<open>try\<close> block runs
  on these two parts (where both are stripped of surrounding whitespace).
\<close>

theorem parse_line_splits_at_last_space:
  "(CHR '' '' \<notin> set line \<longrightarrow> parse_line line st = Inr st) \<and>
   (CHR '' '' \<notin> set count_text \<and> strip (stack_text @ CHR '' '' # count_text) \<noteq> [] \<longrightarrow>
      rsplit1 CHR '' '' (stack_text @ CHR '' '' # count_text) = [stack_text, count_text] \<and>
      parse_line (stack_text @ CHR '' '' # count_text) st =
        (case try_block [stack_text, count_text] st of
           Inl e \<Rightarrow> Inr st
         | Inr st' \<Rightarrow> Inr st'))"
proof (intro conjI impI)
  assume "CHR '' '' \<notin> set line"
  then show "parse_line line st = Inr st"
    by (simp add: parse_line_def rsplit1_no_sep)
next
  assume a: "CHR '' '' \<notin> set count_text \<and> strip (stack_text @ CHR '' '' # count_text) \<noteq> []"
  then show parts: "rsplit1 CHR '' '' (stack_text @ CHR '' '' # count_text) = [stack_text, count_text]"
    by (simp add: rsplit1_at_last)
  show "parse_line (stack_text @ CHR '' '' # count_text) st =
        (case try_block [stack_text, count_text] st of Inl e \<Rightarrow> Inr st | Inr st' \<Rightarrow> Inr st')"
  proof (cases "try_block [stack_text, count_text] st")
    case (Inl e)
    then have "e = ValueError" by (intro try_block_error [of _ st]) auto
    with Inl a show ?thesis by (simp add: parse_line_def parts)
  next
    case (Inr st')
    with a show ?thesis by (simp add: parse_line_def parts)
  qed
qed

theorem parse_line_splits_at_last_space_witness:
  "CHR '' '' \<notin> set (''a;b'' @ [CHR 0x09] @ ''5'') \<and>
   parse_line (''a;b'' @ [CHR 0x09] @ ''5'') ([], 0) = Inr ([], 0) \<and>
   CHR '' '' \<notin> set ''5'' \<and> strip ''a b;c 5'' \<noteq> [] \<and>
   rsplit1 CHR '' '' ''a b;c 5'' = [''a b;c'', ''5''] \<and>
   parse_line ''a b;c 5'' ([], 0) = Inr ([(''a b;c'', 5)], 5)"
proof -
  have h1: "CHR '' '' \<notin> set (''a;b'' @ [CHR 0x09] @ ''5'')" by simp
  have h2: "CHR '' '' \<notin> set ''5'' \<and> strip (''a b;c'' @ CHR '' '' # ''5'') \<noteq> []"
    by code_simp
  have t: "try_block [''a b;c'', ''5''] ([], 0) = Inr ([(''a b;c'', 5)], 5)" by code_simp
  note inst = parse_line_splits_at_last_space
    [of "''a;b'' @ [CHR 0x09] @ ''5''" "([], 0)" "''5''" "''a b;c''"]
  from inst h1 have "parse_line (''a;b'' @ [CHR 0x09] @ ''5'') ([], 0) = Inr ([], 0)" by blast
  moreover from inst h2 have
    "rsplit1 CHR '' '' (''a b;c'' @ CHR '' '' # ''5'') = [''a b;c'', ''5''] \<and>
     parse_line (''a b;c'' @ CHR '' '' # ''5'') ([], 0) =
       (case try_block [''a b;c'', ''5''] ([], 0) of Inl e \<Rightarrow> Inr ([], 0) | Inr st' \<Rightarrow> Inr st')"
    by blast
  ultimately show ?thesis using h1 h2 by (simp add: t)
qed

section \<open>The normalizer on the documented native library name\<close>

text \<open>
  Claim C8: the frame \<open>snappy-1.1.4-abc123-1-de45-f-6789-libsnappyjava.so\<close>, a version and
  six further segments before the fixed library name, normalizes to exactly
  \<open>snappy-*-libsnappyjava.so\<close>.
\<close>

theorem normalize_snappy_frame:
  "normalize_stack_trace ''snappy-1.1.4-abc123-1-de45-f-6789-libsnappyjava.so'' =
     ''snappy-*-libsnappyjava.so''"
  by code_simp

section \<open>The diff engine\<close>

subsection \<open>The overflow bound as a numeral\<close>

lemma overflow_bound_code [code]:
  "overflow_bound =
     179769313486231580793728971405303415079934132710037826936173778980444968292764750946649017977587207096330286416692887910946555547851940402630657488671505820681908902000708383676273854845817711531764475730270069855571366959622842914819860834936475292719074168444365510704342711559699508093042880177904174497792"
  by (simp add: overflow_bound_def)

subsection \<open>\<open>list.sort\<close>: the same elements, in order when \<open><\<close> orders the keys\<close>

lemma distinct_count_list: "distinct xs \<longleftrightarrow> (\<forall>x. count_list xs x \<le> 1)"
proof (induction xs)
  case Nil
  show ?case by simp
next
  case (Cons a xs)
  show ?case
  proof
    assume d: "distinct (a # xs)"
    then have "count_list xs a = 0" by (simp add: count_list_0_iff)
    with d Cons show "\<forall>x. count_list (a # xs) x \<le> 1" by auto
  next
    assume c: "\<forall>x. count_list (a # xs) x \<le> 1"
    then have "count_list (a # xs) a \<le> 1" by blast
    then have "a \<notin> set xs" by (simp add: count_list_0_iff)
    moreover have "count_list xs x \<le> 1" for x
      using c [rule_format, of x] by (simp split: if_splits)
    ultimately show "distinct (a # xs)" using Cons by simp
  qed
qed

lemma count_take_drop:
  "count_list (map g (take l xs)) y + count_list (map g (drop l xs)) y = count_list (map g xs) y"
  by (metis append_take_drop_id count_list_append map_append)

lemma count_binary_insert:
  "count_list (map g (binary_insert lt pre x)) y =
     count_list (map g pre) y + count_list [g x] y"
proof -
  have "count_list (map g (take l pre @ x # drop l pre)) y =
        count_list (map g pre) y + count_list [g x] y" for l
    using count_take_drop [of g l pre y] by simp
  then show ?thesis by (simp add: binary_insert_def Let_def del: map_append)
qed

lemma count_binarysort:
  "count_list (map g (binarysort lt pre rest)) y =
     count_list (map g pre) y + count_list (map g rest) y"
  unfolding binarysort_def
  by (induction rest arbitrary: pre) (simp_all add: count_binary_insert)

lemma count_list_sort: "count_list (map g (list_sort lt xs)) y = count_list (map g xs) y"
proof (cases "length xs < 2")
  case True
  then show ?thesis by (simp add: list_sort_def)
next
  case False
  obtain n d where c: "count_run lt xs = (n, d)" by (cases "count_run lt xs")
  have "count_list (map g (take n xs)) y + count_list (map g (drop n xs)) y =
        count_list (map g xs) y"
    by (rule count_take_drop)
  with False c show ?thesis by (simp add: list_sort_def count_binarysort rev_map [symmetric])
qed











subsection \<open>What \<open>calculate_diff\<close> returns, and what it can raise\<close>

lemma truediv_error: "truediv a b = Inl e \<Longrightarrow> b \<noteq> 0 \<Longrightarrow> e = OverflowError"
  by (auto simp: truediv_def split: if_splits)

lemma percent_error: "percent c t = Inl e \<Longrightarrow> e = OverflowError"
  by (auto simp: percent_def split: if_splits sum.splits dest: truediv_error)

lemma percent_zero: "\<not> 0 < t \<Longrightarrow> percent c t = Inr (Fin 0)"
  by (simp add: percent_def)

lemma round2_zero: "round2 0 = 0"
  by (simp add: round2_def round_half_even_def)

lemma make_summary_error: "make_summary ot nt = Inl e \<Longrightarrow> e = OverflowError"
  by (auto simp: make_summary_def split: sum.splits dest: percent_error)

lemma make_summary_Inr:
  "make_summary ot nt = Inr sm \<Longrightarrow> ot = 0 \<Longrightarrow> total_change_percent sm = Fin 0"
  by (auto simp: make_summary_def percent_zero)

lemma make_info_error:
  "make_info old_stacks new_stacks ot nt s = Inl e \<Longrightarrow> e = OverflowError"
  by (auto simp: make_info_def Let_def split: sum.splits dest: percent_error)

lemma make_info_Inr:
  assumes "make_info old_stacks new_stacks ot nt s = Inr i"
  shows "stack i = s" "old_count i = get old_stacks s" "new_count i = get new_stacks s"
    "diff_count i = get new_stacks s - get old_stacks s"
    "ot = 0 \<Longrightarrow> old_percent i = Fin 0" "nt = 0 \<Longrightarrow> new_percent i = Fin 0"
  using assms
  by (auto simp: make_info_def Let_def percent_zero round2_zero split: sum.splits)

lemma classify_fields:
  "added (classify i r) = added r @ (if is_added i then [i] else [])"
  "removed (classify i r) = removed r @ (if is_removed i then [i] else [])"
  "increased (classify i r) = increased r @ (if is_increased i then [i] else [])"
  "decreased (classify i r) = decreased r @ (if is_decreased i then [i] else [])"
  "unchanged (classify i r) = unchanged r @ (if is_unchanged i then [i] else [])"
  "summary (classify i r) = summary r"
  by (auto simp: classify_def is_added_def is_removed_def is_increased_def is_decreased_def
      is_unchanged_def)

lemma diff_loop_error:
  "diff_loop old_stacks new_stacks ot nt ss r0 = Inl e \<Longrightarrow> e = OverflowError"
  by (induction ss arbitrary: r0) (auto split: sum.splits dest: make_info_error)

lemma diff_loop_Inr:
  assumes "diff_loop old_stacks new_stacks ot nt ss r0 = Inr r"
  shows "\<exists>infos. list_all2 (\<lambda>s i. make_info old_stacks new_stacks ot nt s = Inr i) ss infos \<and>
     added r = added r0 @ filter is_added infos \<and>
     removed r = removed r0 @ filter is_removed infos \<and>
     increased r = increased r0 @ filter is_increased infos \<and>
     decreased r = decreased r0 @ filter is_decreased infos \<and>
     unchanged r = unchanged r0 @ filter is_unchanged infos \<and>
     summary r = summary r0"
  using assms
proof (induction ss arbitrary: r0)
  case Nil
  then show ?case by simp
next
  case (Cons s ss)
  from Cons.prems obtain i where i: "make_info old_stacks new_stacks ot nt s = Inr i"
    and l: "diff_loop old_stacks new_stacks ot nt ss (classify i r0) = Inr r"
    by (auto split: sum.splits)
  from Cons.IH [OF l] obtain infos where
    a: "list_all2 (\<lambda>s i. make_info old_stacks new_stacks ot nt s = Inr i) ss infos"
    and f: "added r = added (classify i r0) @ filter is_added infos"
      "removed r = removed (classify i r0) @ filter is_removed infos"
      "increased r = increased (classify i r0) @ filter is_increased infos"
      "decreased r = decreased (classify i r0) @ filter is_decreased infos"
      "unchanged r = unchanged (classify i r0) @ filter is_unchanged infos"
      "summary r = summary (classify i r0)"
    by blast
  have "list_all2 (\<lambda>s i. make_info old_stacks new_stacks ot nt s = Inr i) (s # ss) (i # infos)"
    using i a by simp
  moreover have "added r = added r0 @ filter is_added (i # infos)"
    "removed r = removed r0 @ filter is_removed (i # infos)"
    "increased r = increased r0 @ filter is_increased (i # infos)"
    "decreased r = decreased r0 @ filter is_decreased (i # infos)"
    "unchanged r = unchanged r0 @ filter is_unchanged (i # infos)"
    "summary r = summary r0"
    unfolding f classify_fields by simp_all
  ultimately show ?case by blast
qed

lemma classified_error:
  "classified all_stacks old_stacks new_stacks ot nt = Inl e \<Longrightarrow> e = OverflowError"
  by (auto simp: classified_def split: sum.splits dest: make_summary_error diff_loop_error)

lemma classified_Inr:
  assumes "classified all_stacks old_stacks new_stacks ot nt = Inr u"
  shows "\<exists>infos sm. make_summary ot nt = Inr sm \<and>
     list_all2 (\<lambda>s i. make_info old_stacks new_stacks ot nt s = Inr i) all_stacks infos \<and>
     added u = filter is_added infos \<and> removed u = filter is_removed infos \<and>
     increased u = filter is_increased infos \<and> decreased u = filter is_decreased infos \<and>
     unchanged u = filter is_unchanged infos \<and> summary u = sm"
proof -
  from assms obtain sm where sm: "make_summary ot nt = Inr sm"
    and l: "diff_loop old_stacks new_stacks ot nt all_stacks
             \<lparr>added = [], removed = [], increased = [], decreased = [],
              unchanged = [], summary = sm\<rparr> = Inr u"
    by (auto simp: classified_def split: sum.splits)
  from diff_loop_Inr [OF l] sm show ?thesis by simp
qed

lemma calculate_diff_error:
  "calculate_diff all_stacks old_stacks new_stacks ot nt = Inl e \<Longrightarrow> e = OverflowError"
  by (auto simp: calculate_diff_def split: sum.splits dest: classified_error)

lemma calculate_diff_Inr:
  assumes "calculate_diff all_stacks old_stacks new_stacks ot nt = Inr r"
  shows "\<exists>u. classified all_stacks old_stacks new_stacks ot nt = Inr u \<and>
     added r = sort_desc (added u) \<and> removed r = sort_desc (removed u) \<and>
     increased r = sort_desc (increased u) \<and> decreased r = sort_desc (decreased u) \<and>
     unchanged r = unchanged u \<and> summary r = summary u"
  using assms by (auto simp: calculate_diff_def split: sum.splits)

lemma count_sort_desc: "count_list (map g (sort_desc xs)) y = count_list (map g xs) y"
proof -
  have "count_list (map g (sort_desc xs)) y =
        count_list (map g (list_sort sort_key_less (rev xs))) y"
    by (simp add: sort_desc_def rev_map [symmetric])
  also have "\<dots> = count_list (map g (rev xs)) y" by (rule count_list_sort)
  also have "\<dots> = count_list (map g xs) y" by (simp add: rev_map [symmetric])
  finally show ?thesis .
qed

lemma count_sort_desc_id: "count_list (sort_desc xs) y = count_list xs y"
  using count_sort_desc [of "\<lambda>x. x" xs y] by simp

lemma set_sort_desc: "set (sort_desc xs) = set xs"
proof -
  have "x \<in> set (sort_desc xs) \<longleftrightarrow> x \<in> set xs" for x
    using count_sort_desc_id [of xs x] count_list_0_iff [of "sort_desc xs" x]
      count_list_0_iff [of xs x] by simp
  then show ?thesis by blast
qed

lemma distinct_stacks_sort_desc: "distinct (map stack (sort_desc xs)) = distinct (map stack xs)"
  by (simp add: distinct_count_list count_sort_desc)






lemma infos_stacks:
  assumes "list_all2 (\<lambda>s i. make_info old_stacks new_stacks ot nt s = Inr i) ss infos"
  shows "map stack infos = ss"
  using assms by (induction rule: list_all2_induct) (auto dest: make_info_Inr(1))

lemma infos_member:
  assumes "list_all2 (\<lambda>s i. make_info old_stacks new_stacks ot nt s = Inr i) ss infos"
    "i \<in> set infos"
  shows "make_info old_stacks new_stacks ot nt (stack i) = Inr i"
  using assms by (induction rule: list_all2_induct) (auto dest: make_info_Inr(1))

lemma set_all_records:
  assumes "added r = sort_desc (filter is_added infos)"
    "removed r = sort_desc (filter is_removed infos)"
    "increased r = sort_desc (filter is_increased infos)"
    "decreased r = sort_desc (filter is_decreased infos)"
    "unchanged r = filter is_unchanged infos"
  shows "set (all_records r) = set infos"
  unfolding all_records_def assms
  by (auto simp: set_sort_desc is_unchanged_def is_decreased_def is_increased_def)

lemma distinct_all_records:
  assumes d: "distinct (map stack infos)"
    and cats: "added r = sort_desc (filter is_added infos)"
    "removed r = sort_desc (filter is_removed infos)"
    "increased r = sort_desc (filter is_increased infos)"
    "decreased r = sort_desc (filter is_decreased infos)"
    "unchanged r = filter is_unchanged infos"
  shows "distinct (map stack (all_records r))"
proof -
  have df: "distinct (map stack (filter P infos))" for P
    using d by (rule distinct_map_filter)
  have ds: "distinct (map stack (sort_desc (filter P infos)))" for P
    using df by (simp add: distinct_stacks_sort_desc)
  have ss: "set (map stack (sort_desc (filter P infos))) = stack ` {i \<in> set infos. P i}" for P
    by (simp add: set_sort_desc)
  have inj: "inj_on stack (set infos)" using d by (simp add: distinct_map)
  have disj: "stack ` {i \<in> set infos. P i} \<inter> stack ` {i \<in> set infos. Q i} = {}"
    if "\<And>i. \<not> (P i \<and> Q i)" for P Q
  proof -
    have "stack i \<noteq> stack j" if "i \<in> set infos" "j \<in> set infos" "P i" "Q j" for i j
      using that \<open>\<And>i. \<not> (P i \<and> Q i)\<close> inj by (auto dest: inj_onD)
    then show ?thesis by auto
  qed
  have excl: "\<not> (is_added i \<and> is_removed i)" "\<not> (is_added i \<and> is_increased i)"
    "\<not> (is_added i \<and> is_decreased i)" "\<not> (is_added i \<and> is_unchanged i)"
    "\<not> (is_removed i \<and> is_increased i)" "\<not> (is_removed i \<and> is_decreased i)"
    "\<not> (is_removed i \<and> is_unchanged i)" "\<not> (is_increased i \<and> is_decreased i)"
    "\<not> (is_increased i \<and> is_unchanged i)" "\<not> (is_decreased i \<and> is_unchanged i)" for i
    by (auto simp: is_removed_def is_increased_def is_decreased_def is_unchanged_def)
  have su: "set (map stack (filter is_unchanged infos)) = stack ` {i \<in> set infos. is_unchanged i}"
    by simp
  have "distinct (map stack (added r) @ map stack (removed r) @ map stack (increased r) @
          map stack (decreased r) @ map stack (unchanged r))"
    unfolding cats distinct_append set_append ss su
    using ds df disj [OF excl(1)] disj [OF excl(2)] disj [OF excl(3)] disj [OF excl(4)]
      disj [OF excl(5)] disj [OF excl(6)] disj [OF excl(7)] disj [OF excl(8)]
      disj [OF excl(9)] disj [OF excl(10)]
    by (simp add: Int_Un_distrib)
  then show ?thesis by (simp add: all_records_def)
qed

subsection \<open>Percentages against a total of zero\<close>

text \<open>
  Claim C6: \<open>calculate_diff\<close> never divides by zero. For all tables and totals it does
  not raise \<open>ZeroDivisionError\<close> (the division is only reached behind the test that the
  total is positive), and in every result it returns, when \<open>old_total\<close> is 0 the summary's
  \<open>total_change_percent\<close> and every record's \<open>old_percent\<close> are 0, and when
  \<open>new_total\<close> is 0 every record's \<open>new_percent\<close> is 0: a number, not NaN.
\<close>

theorem calculate_diff_never_divides_by_zero:
  "calculate_diff all_stacks old_stacks new_stacks ot nt \<noteq> Inl ZeroDivisionError \<and>
   (calculate_diff all_stacks old_stacks new_stacks ot nt = Inr r \<longrightarrow>
     (ot = 0 \<longrightarrow> total_change_percent (summary r) = Fin 0 \<and>
                (\<forall>i \<in> set (all_records r). old_percent i = Fin 0)) \<and>
     (nt = 0 \<longrightarrow> (\<forall>i \<in> set (all_records r). new_percent i = Fin 0)))"
proof (intro conjI impI)
  show "calculate_diff all_stacks old_stacks new_stacks ot nt \<noteq> Inl ZeroDivisionError"
    using calculate_diff_error [of all_stacks old_stacks new_stacks ot nt ZeroDivisionError]
    by auto
next
  assume res: "calculate_diff all_stacks old_stacks new_stacks ot nt = Inr r"
  from calculate_diff_Inr [OF res] obtain u where
    u: "classified all_stacks old_stacks new_stacks ot nt = Inr u"
    and ru: "added r = sort_desc (added u)" "removed r = sort_desc (removed u)"
      "increased r = sort_desc (increased u)" "decreased r = sort_desc (decreased u)"
      "unchanged r = unchanged u"
    and rs: "summary r = summary u"
    by blast
  from classified_Inr [OF u] obtain infos sm where
    sm: "make_summary ot nt = Inr sm" "summary u = sm"
    and all2: "list_all2 (\<lambda>s i. make_info old_stacks new_stacks ot nt s = Inr i) all_stacks infos"
    and uc: "added u = filter is_added infos" "removed u = filter is_removed infos"
      "increased u = filter is_increased infos" "decreased u = filter is_decreased infos"
      "unchanged u = filter is_unchanged infos"
    by blast
  note cats = ru [unfolded uc]
  have recs: "set (all_records r) = set infos" using cats by (rule set_all_records)
  have mi: "make_info old_stacks new_stacks ot nt (stack i) = Inr i" if "i \<in> set infos" for i
    using all2 that by (rule infos_member)
  {
    assume z: "ot = 0"
    show "total_change_percent (summary r) = Fin 0"
      unfolding rs sm(2) using sm(1) z by (rule make_summary_Inr)
    show "\<forall>i \<in> set (all_records r). old_percent i = Fin 0"
      unfolding recs using make_info_Inr(5) [OF mi z] by blast
  }
  {
    assume z: "nt = 0"
    show "\<forall>i \<in> set (all_records r). new_percent i = Fin 0"
      unfolding recs using make_info_Inr(6) [OF mi z] by blast
  }
qed

theorem calculate_diff_never_divides_by_zero_witness:
  "(0::int) = 0 \<and>
   (\<exists>r. calculate_diff [''c'', ''a'', ''b''] [] [(''a'', 1), (''b'', 5), (''c'', 3)] 0 9 = Inr r \<and>
        all_records r \<noteq> [] \<and> total_change_percent (summary r) = Fin 0 \<and>
        (\<forall>i \<in> set (all_records r). old_percent i = Fin 0)) \<and>
   (\<exists>r. calculate_diff [''a''] [(''a'', 1)] [] 1 0 = Inr r \<and>
        all_records r \<noteq> [] \<and> (\<forall>i \<in> set (all_records r). new_percent i = Fin 0))"
proof -
  let ?c1 = "calculate_diff [''c'', ''a'', ''b''] [] [(''a'', 1), (''b'', 5), (''c'', 3)] 0 9"
  let ?c2 = "calculate_diff [''a''] [(''a'', 1)] [] 1 0"
  have e1: "(case ?c1 of Inl e \<Rightarrow> False | Inr r \<Rightarrow> all_records r \<noteq> [])"
    by code_simp
  have e2: "(case ?c2 of Inl e \<Rightarrow> False | Inr r \<Rightarrow> all_records r \<noteq> [])"
    by code_simp
  from e1 obtain r1 where r1: "?c1 = Inr r1" by (cases ?c1) auto
  from e2 obtain r2 where r2: "?c2 = Inr r2" by (cases ?c2) auto
  from e1 r1 have n1: "all_records r1 \<noteq> []" by simp
  from e2 r2 have n2: "all_records r2 \<noteq> []" by simp
  from calculate_diff_never_divides_by_zero
    [of "[''c'', ''a'', ''b'']" "[]" "[(''a'', 1), (''b'', 5), (''c'', 3)]" 0 9 r1] r1
  have z1: "total_change_percent (summary r1) = Fin 0"
    "\<forall>i \<in> set (all_records r1). old_percent i = Fin 0"
    by simp_all
  from calculate_diff_never_divides_by_zero [of "[''a'']" "[(''a'', 1)]" "[]" 1 0 r2] r2
  have z2: "\<forall>i \<in> set (all_records r2). new_percent i = Fin 0"
    by simp
  have a: "\<exists>r. ?c1 = Inr r \<and> all_records r \<noteq> [] \<and> total_change_percent (summary r) = Fin 0 \<and>
        (\<forall>i \<in> set (all_records r). old_percent i = Fin 0)"
    by (rule exI [of _ r1]) (intro conjI r1 n1 z1)
  have b: "\<exists>r. ?c2 = Inr r \<and> all_records r \<noteq> [] \<and>
        (\<forall>i \<in> set (all_records r). new_percent i = Fin 0)"
    by (rule exI [of _ r2]) (intro conjI r2 n2 z2)
  from a b show ?thesis by simp
qed

subsection \<open>The order within the changed categories\<close>


text \<open>
  The two tables and totals are what \<open>parse_file\<close> returns for the files with the lines
  \<open>a 10...0\<close>, \<open>b 1\<close>, \<open>z -10...0\<close> and \<open>a 10...01\<close>, \<open>b 2\<close>, \<open>z -10...0\<close>.
\<close>

lemma nan_tables_from_parser:
  "parse_file (''a 1'' @ replicate 307 CHR ''0'' @ [CHR 0x0A] @ ''b 1'' @ [CHR 0x0A] @
               ''z -1'' @ replicate 307 CHR ''0'') =
     Inr ([(''a'', 10 ^ 307), (''b'', 1), (''z'', - (10 ^ 307))], 1) \<and>
   parse_file (''a 1'' @ replicate 306 CHR ''0'' @ ''1'' @ [CHR 0x0A] @ ''b 2'' @ [CHR 0x0A] @
               ''z -1'' @ replicate 307 CHR ''0'') =
     Inr ([(''a'', 10 ^ 307 + 1), (''b'', 2), (''z'', - (10 ^ 307))], 3)"
  by code_simp



subsection \<open>The five categories partition the stacks\<close>

text \<open>
  Claim C1: the partition property. When \<open>all_stacks\<close> enumerates the keys of the two
  tables, in every result that \<open>calculate_diff\<close> returns the stacks of the five category
  lists together are exactly the union of the two key sets, and no stack occurs twice among
  them, so every stack is in exactly one category; each record carries the counts of its
  stack in the two tables (0 when absent), and it is in \<open>added\<close> only with
  \<open>old_count = 0\<close> and \<open>new_count > 0\<close>, in \<open>removed\<close> only with \<open>old_count > 0\<close>
  and \<open>new_count = 0\<close>, and otherwise in \<open>increased\<close>, \<open>decreased\<close> or \<open>unchanged\<close>
  by the sign of \<open>new_count - old_count\<close>.
\<close>

theorem calculate_diff_partition:
  assumes "is_all_stacks all_stacks old_stacks new_stacks"
    and "calculate_diff all_stacks old_stacks new_stacks ot nt = Inr r"
  shows "set (map stack (all_records r)) = set (map fst old_stacks) \<union> set (map fst new_stacks) \<and>
     distinct (map stack (all_records r)) \<and>
     (\<forall>i \<in> set (all_records r).
        old_count i = get old_stacks (stack i) \<and> new_count i = get new_stacks (stack i)) \<and>
     (\<forall>i \<in> set (added r). old_count i = 0 \<and> 0 < new_count i) \<and>
     (\<forall>i \<in> set (removed r). 0 < old_count i \<and> new_count i = 0) \<and>
     (\<forall>i \<in> set (increased r).
        \<not> (old_count i = 0 \<and> 0 < new_count i) \<and> \<not> (0 < old_count i \<and> new_count i = 0) \<and>
        0 < new_count i - old_count i) \<and>
     (\<forall>i \<in> set (decreased r).
        \<not> (old_count i = 0 \<and> 0 < new_count i) \<and> \<not> (0 < old_count i \<and> new_count i = 0) \<and>
        new_count i - old_count i < 0) \<and>
     (\<forall>i \<in> set (unchanged r). new_count i = old_count i)"
proof -
  from calculate_diff_Inr [OF assms(2)] obtain u where
    u: "classified all_stacks old_stacks new_stacks ot nt = Inr u"
    and ru: "added r = sort_desc (added u)" "removed r = sort_desc (removed u)"
      "increased r = sort_desc (increased u)" "decreased r = sort_desc (decreased u)"
      "unchanged r = unchanged u"
    by blast
  from classified_Inr [OF u] obtain infos where
    all2: "list_all2 (\<lambda>s i. make_info old_stacks new_stacks ot nt s = Inr i) all_stacks infos"
    and uc: "added u = filter is_added infos" "removed u = filter is_removed infos"
      "increased u = filter is_increased infos" "decreased u = filter is_decreased infos"
      "unchanged u = filter is_unchanged infos"
    by blast
  note cats = ru [unfolded uc]
  have st: "map stack infos = all_stacks" using all2 by (rule infos_stacks)
  have mi: "make_info old_stacks new_stacks ot nt (stack i) = Inr i" if "i \<in> set infos" for i
    using all2 that by (rule infos_member)
  have oc: "old_count i = get old_stacks (stack i)"
    and nc: "new_count i = get new_stacks (stack i)"
    and dc: "diff_count i = new_count i - old_count i" if "i \<in> set infos" for i
    using make_info_Inr [OF mi [OF that]] by simp_all
  from assms(1) have d: "distinct all_stacks"
    and keys: "set all_stacks = set (map fst old_stacks) \<union> set (map fst new_stacks)"
    by (simp_all add: is_all_stacks_def)
  have recs: "set (all_records r) = set infos" using cats by (rule set_all_records)
  have "set (map stack (all_records r)) = set (map stack infos)"
    unfolding set_map recs ..
  then have c1: "set (map stack (all_records r)) =
      set (map fst old_stacks) \<union> set (map fst new_stacks)"
    unfolding st keys .
  have c2: "distinct (map stack (all_records r))"
    using d cats unfolding st [symmetric] by (rule distinct_all_records)
  have c3: "\<forall>i \<in> set (all_records r).
        old_count i = get old_stacks (stack i) \<and> new_count i = get new_stacks (stack i)"
    unfolding recs using oc nc by blast
  have c4: "\<forall>i \<in> set (added r). old_count i = 0 \<and> 0 < new_count i"
    unfolding cats by (auto simp: set_sort_desc is_added_def)
  have c5: "\<forall>i \<in> set (removed r). 0 < old_count i \<and> new_count i = 0"
    unfolding cats by (auto simp: set_sort_desc is_removed_def)
  have c6: "\<forall>i \<in> set (increased r).
        \<not> (old_count i = 0 \<and> 0 < new_count i) \<and> \<not> (0 < old_count i \<and> new_count i = 0) \<and>
        0 < new_count i - old_count i"
    unfolding cats using dc
    by (auto simp: set_sort_desc is_increased_def is_removed_def is_added_def)
  have c7: "\<forall>i \<in> set (decreased r).
        \<not> (old_count i = 0 \<and> 0 < new_count i) \<and> \<not> (0 < old_count i \<and> new_count i = 0) \<and>
        new_count i - old_count i < 0"
    unfolding cats using dc
    by (auto simp: set_sort_desc is_decreased_def is_removed_def is_added_def)
  have c8: "\<forall>i \<in> set (unchanged r). new_count i = old_count i"
    unfolding cats using dc by (auto simp: is_unchanged_def)
  from c1 c2 c3 c4 c5 c6 c7 c8 show ?thesis by blast
qed

theorem calculate_diff_partition_witness:
  "is_all_stacks [''same'', ''dec'', ''ad'', ''rm'', ''inc'']
     [(''rm'', 2), (''inc'', 3), (''dec'', 4), (''same'', 5)]
     [(''ad'', 1), (''inc'', 5), (''dec'', 1), (''same'', 5)] \<and>
   (\<exists>r. calculate_diff [''same'', ''dec'', ''ad'', ''rm'', ''inc'']
           [(''rm'', 2), (''inc'', 3), (''dec'', 4), (''same'', 5)]
           [(''ad'', 1), (''inc'', 5), (''dec'', 1), (''same'', 5)] 14 12 = Inr r \<and>
        map stack (added r) = [''ad''] \<and> map stack (removed r) = [''rm''] \<and>
        map stack (increased r) = [''inc''] \<and> map stack (decreased r) = [''dec''] \<and>
        map stack (unchanged r) = [''same''] \<and>
        set (map stack (all_records r)) = {''rm'', ''inc'', ''dec'', ''same'', ''ad''} \<and>
        distinct (map stack (all_records r)))"
proof -
  let ?all = "[''same'', ''dec'', ''ad'', ''rm'', ''inc'']"
  let ?old = "[(''rm'', 2), (''inc'', 3), (''dec'', 4), (''same'', 5 :: int)]"
  let ?new = "[(''ad'', 1), (''inc'', 5), (''dec'', 1), (''same'', 5 :: int)]"
  have h: "is_all_stacks ?all ?old ?new" by code_simp
  have e: "(case calculate_diff ?all ?old ?new 14 12 of
        Inl e \<Rightarrow> False
      | Inr r \<Rightarrow> map stack (added r) = [''ad''] \<and> map stack (removed r) = [''rm''] \<and>
          map stack (increased r) = [''inc''] \<and> map stack (decreased r) = [''dec''] \<and>
          map stack (unchanged r) = [''same''])"
    by code_simp
  then obtain r where r: "calculate_diff ?all ?old ?new 14 12 = Inr r"
    by (cases "calculate_diff ?all ?old ?new 14 12") auto
  from calculate_diff_partition [OF h r]
  have u: "set (map stack (all_records r)) = set (map fst ?old) \<union> set (map fst ?new)"
    and d: "distinct (map stack (all_records r))"
    by blast+
  from u have u': "set (map stack (all_records r)) = {''rm'', ''inc'', ''dec'', ''same'', ''ad''}"
    by auto
  from e r have m: "map stack (added r) = [''ad'']" "map stack (removed r) = [''rm'']"
    "map stack (increased r) = [''inc'']" "map stack (decreased r) = [''dec'']"
    "map stack (unchanged r) = [''same'']"
    by simp_all
  have "\<exists>r. calculate_diff ?all ?old ?new 14 12 = Inr r \<and>
        map stack (added r) = [''ad''] \<and> map stack (removed r) = [''rm''] \<and>
        map stack (increased r) = [''inc''] \<and> map stack (decreased r) = [''dec''] \<and>
        map stack (unchanged r) = [''same''] \<and>
        set (map stack (all_records r)) = {''rm'', ''inc'', ''dec'', ''same'', ''ad''} \<and>
        distinct (map stack (all_records r))"
    by (rule exI [of _ r]) (intro conjI r m u' d)
  with h show ?thesis by (rule conjI)
qed

section \<open>The correlation report\<close>

subsection \<open>Splitting, joining and substrings\<close>

lemma split_nonempty: "split c s \<noteq> []"
  by (induction s) (auto split: list.splits)

lemma join_split: "join c (split c s) = s"
proof (induction s)
  case Nil
  show ?case by simp
next
  case (Cons x xs)
  obtain w ws where w: "split c xs = w # ws"
    using split_nonempty [of c xs] by (cases "split c xs") auto
  show ?case
  proof (cases "x = c")
    case True
    with Cons w show ?thesis by simp
  next
    case False
    with Cons w show ?thesis by (cases ws) auto
  qed
qed

lemma split_no_sep: "c \<notin> set s \<Longrightarrow> split c s = [s]"
  by (induction s) auto

lemma join_ends_with_last: "xs \<noteq> [] \<Longrightarrow> \<exists>p. join c xs = p @ last xs"
proof (induction c xs rule: join.induct)
  case (1 c)
  then show ?case by simp
next
  case (2 c x)
  show ?case by simp
next
  case (3 c x y ys)
  then obtain p where "join c (y # ys) = p @ last (y # ys)" by auto
  then have "join c (x # y # ys) = (x @ c # p) @ last (x # y # ys)" by simp
  then show ?case by blast
qed

lemma last_split_suffix: "\<exists>p. s = p @ last (split c s)"
  using join_ends_with_last [OF split_nonempty, of c c s] by (simp add: join_split)

lemma starts_with_append: "starts_with p (p @ b)"
  by (induction p) auto

lemma contains_append: "contains p (a @ p @ b)"
proof (induction a)
  case Nil
  show ?case by (cases "p @ b") (auto simp: starts_with_append simp del: append_is_Nil_conv
      dest: arg_cong [where f = "\<lambda>l. starts_with p l"])
next
  case (Cons x a)
  then show ?case by simp
qed

lemma contains_leaf: "contains (leaf_identifier s) s"
proof -
  obtain p where p: "s = p @ last (split CHR '';'' s)"
    using last_split_suffix by blast
  obtain q where q: "last (split CHR '';'' s) = q @ leaf_identifier s"
    unfolding leaf_identifier_def using last_split_suffix by blast
  have "s = (p @ q) @ leaf_identifier s @ []" using p q by (metis append.assoc append_Nil2)
  then show ?thesis using contains_append [of "leaf_identifier s" "p @ q" "[]"] by simp
qed

lemma last_method_leaf: "last_method s = Inr (Some (leaf_identifier s))"
  by (simp add: last_method_def last_item_def split_nonempty leaf_identifier_def Let_def
      split_no_sep)

lemma methods_eq: "methods xs acc = Inr (acc \<union> leaves xs)"
  by (induction xs arbitrary: acc) (simp_all add: last_method_leaf leaves_def)

lemma find_filter:
  "find P xs = (case filter P xs of [] \<Rightarrow> None | a # _ \<Rightarrow> Some a)"
  by (induction xs) auto

lemma build_examples_eq:
  "build_examples d ms acc = Inr (acc @ List.map_filter (example_for d) ms)"
proof (induction ms arbitrary: acc)
  case Nil
  show ?case by (simp add: map_filter_simps)
next
  case (Cons m ms)
  show ?case
    by (auto simp: Cons Let_def item_def example_for_def first_with_def find_filter
        map_filter_simps hd_conv_nth split: list.splits)
qed

lemma first_with_leaf:
  assumes "m \<in> leaves xs"
  shows "\<exists>a. first_with m xs = Some a"
proof -
  from assms obtain i where i: "i \<in> set xs" "m = leaf_identifier (stack i)"
    by (auto simp: leaves_def)
  then have "contains m (stack i)" by (simp add: contains_leaf)
  with i have "first_with m xs \<noteq> None" by (auto simp: first_with_def find_None_iff)
  then show ?thesis by auto
qed

lemma example_for_common:
  assumes "m \<in> leaves (added d) \<inter> leaves (removed d)"
  shows "\<exists>e. example_for d m = Some e \<and> method_name e = m"
proof -
  from assms obtain a b where "first_with m (added d) = Some a" "first_with m (removed d) = Some b"
    using first_with_leaf [of m "added d"] first_with_leaf [of m "removed d"] by auto
  then show ?thesis by (simp add: example_for_def)
qed

lemma example_for_Some:
  assumes "example_for d m = Some e"
  shows "method_name e = m \<and>
     (\<exists>a b. first_with m (added d) = Some a \<and> first_with m (removed d) = Some b \<and>
            added_example e = stack a \<and> removed_example e = stack b)"
  using assms by (auto simp: example_for_def split: option.splits)

lemma in_map_filter:
  "e \<in> set (List.map_filter g xs) \<Longrightarrow> \<exists>x \<in> set xs. g x = Some e"
  by (induction xs) (auto split: option.splits)

lemma names_map_filter:
  assumes "\<forall>m \<in> set ms. \<exists>e. example_for d m = Some e \<and> method_name e = m"
  shows "map method_name (List.map_filter (example_for d) ms) = ms"
  using assms by (induction ms) (auto simp: map_filter_simps)

text \<open>
  Claim C9: the correlation report. The leaf identifier that the code extracts from the
  stack of every added and removed record is the last \<open>;\<close>-delimited component of the
  signature and of that the last \<open>/\<close>-delimited component. When \<open>listing\<close> enumerates the
  leaf identifiers common to the added and the removed records, the report counts them,
  reports at most 10 of them, all common, and holds at most 5 examples: one for each of the
  first 5 identifiers listed, pairing the first added record and the first removed record
  whose signature contains the identifier as a substring.
\<close>

theorem correlate_report:
  assumes "is_listing listing (leaves (added d) \<inter> leaves (removed d))"
  shows "\<exists>rep. correlate listing d = Inr rep \<and>
     (\<forall>i \<in> set (added d) \<union> set (removed d).
        last_method (stack i) = Inr (Some (leaf_identifier (stack i)))) \<and>
     common_methods_count rep = card (leaves (added d) \<inter> leaves (removed d)) \<and>
     length (common_methods rep) \<le> 10 \<and>
     set (common_methods rep) \<subseteq> leaves (added d) \<inter> leaves (removed d) \<and>
     length (examples rep) \<le> 5 \<and>
     map method_name (examples rep) = take 5 listing \<and>
     (\<forall>e \<in> set (examples rep).
        \<exists>a b. first_with (method_name e) (added d) = Some a \<and>
              first_with (method_name e) (removed d) = Some b \<and>
              added_example e = stack a \<and> removed_example e = stack b)"
proof -
  let ?C = "leaves (added d) \<inter> leaves (removed d)"
  let ?ex = "List.map_filter (example_for d) (take 5 listing)"
  let ?rep = "\<lparr>common_methods_count = card ?C, common_methods = take 10 listing,
       examples = ?ex,
       report_summary =
         \<lparr>total_added = length (added d), total_removed = length (removed d),
          total_increased = length (increased d), total_decreased = length (decreased d)\<rparr>\<rparr>"
  from assms have l: "set listing = ?C" by (simp add: is_listing_def)
  have c: "correlate listing d = Inr ?rep"
    by (simp add: correlate_def methods_eq build_examples_eq Let_def)
  have sub10: "set (take 10 listing) \<subseteq> ?C" using l set_take_subset [of 10 listing] by blast
  have sub5: "set (take 5 listing) \<subseteq> ?C" using l set_take_subset [of 5 listing] by blast
  have names: "map method_name ?ex = take 5 listing"
    using sub5 by (intro names_map_filter) (auto intro: example_for_common)
  then have "length ?ex = length (take 5 listing)" by (metis length_map)
  then have len: "length ?ex \<le> 5" by simp
  have pairs: "\<forall>e \<in> set ?ex.
        \<exists>a b. first_with (method_name e) (added d) = Some a \<and>
              first_with (method_name e) (removed d) = Some b \<and>
              added_example e = stack a \<and> removed_example e = stack b"
  proof
    fix e assume "e \<in> set ?ex"
    then obtain m where "example_for d m = Some e" using in_map_filter by fastforce
    from example_for_Some [OF this]
    show "\<exists>a b. first_with (method_name e) (added d) = Some a \<and>
              first_with (method_name e) (removed d) = Some b \<and>
              added_example e = stack a \<and> removed_example e = stack b"
      by auto
  qed
  define rep where "rep = ?rep"
  have f: "common_methods_count rep = card ?C" "common_methods rep = take 10 listing"
    "examples rep = ?ex"
    by (simp_all add: rep_def)
  have c1: "correlate listing d = Inr rep" using c by (simp only: rep_def)
  have c2: "\<forall>i \<in> set (added d) \<union> set (removed d).
        last_method (stack i) = Inr (Some (leaf_identifier (stack i)))"
    by (simp add: last_method_leaf)
  have c3: "length (common_methods rep) \<le> 10" unfolding f by simp
  have c4: "set (common_methods rep) \<subseteq> ?C" unfolding f by (rule sub10)
  have c5: "length (examples rep) \<le> 5" unfolding f by (rule len)
  have c6: "map method_name (examples rep) = take 5 listing" unfolding f by (rule names)
  have c7: "\<forall>e \<in> set (examples rep).
        \<exists>a b. first_with (method_name e) (added d) = Some a \<and>
              first_with (method_name e) (removed d) = Some b \<and>
              added_example e = stack a \<and> removed_example e = stack b"
    unfolding f by (rule pairs)
  from c1 c2 f(1) c3 c4 c5 c6 c7 show ?thesis by blast
qed

theorem correlate_report_witness:
  "is_listing [''run''] (leaves (added sample_diff) \<inter> leaves (removed sample_diff)) \<and>
   (\<exists>rep. correlate [''run''] sample_diff = Inr rep \<and> common_methods_count rep = 1 \<and>
      common_methods rep = [''run''] \<and>
      examples rep = [\<lparr>method_name = ''run'', added_example = ''a;x/run'',
                       removed_example = ''c;run''\<rparr>])"
proof -
  have h: "is_listing [''run''] (leaves (added sample_diff) \<inter> leaves (removed sample_diff))"
    by code_simp
  have e: "(case correlate [''run''] sample_diff of
              Inl e \<Rightarrow> False
            | Inr rep \<Rightarrow> common_methods_count rep = 1 \<and> common_methods rep = [''run''] \<and>
                examples rep = [\<lparr>method_name = ''run'', added_example = ''a;x/run'',
                                 removed_example = ''c;run''\<rparr>])"
    by code_simp
  from correlate_report [OF h] obtain rep where rep: "correlate [''run''] sample_diff = Inr rep"
    by blast
  with e have body: "correlate [''run''] sample_diff = Inr rep \<and> common_methods_count rep = 1 \<and>
      common_methods rep = [''run''] \<and>
      examples rep = [\<lparr>method_name = ''run'', added_example = ''a;x/run'',
                       removed_example = ''c;run''\<rparr>]"
    by simp
  show ?thesis
  proof (rule conjI)
    show "is_listing [''run''] (leaves (added sample_diff) \<inter> leaves (removed sample_diff))"
      by (rule h)
    show "\<exists>rep. correlate [''run''] sample_diff = Inr rep \<and> common_methods_count rep = 1 \<and>
      common_methods rep = [''run''] \<and>
      examples rep = [\<lparr>method_name = ''run'', added_example = ''a;x/run'',
                       removed_example = ''c;run''\<rparr>]"
      by (rule exI [of _ rep]) (rule body)
  qed
qed


section \<open>Normalizing twice\<close>

subsection \<open>Patterns that cannot match\<close>

lemma rmatch_set: "(s', g') \<in> set (rmatch r s g) \<Longrightarrow> set s' \<subseteq> set s"
proof (induction r arbitrary: s g s' g')
  case (Rep n p)
  then show ?case using set_drop_subset by fastforce
next
  case (Seq a b)
  then show ?case by fastforce
next
  case (Alt a b)
  then show ?case by fastforce
next
  case (Opt a)
  then show ?case by fastforce
next
  case (Grp i a)
  then show ?case by fastforce
next
  case (Ahead a)
  then show ?case by (auto split: if_splits)
qed (auto split: list.splits if_splits)

lemma needs_no_match: "needs c r \<Longrightarrow> c \<notin> set s \<Longrightarrow> rmatch r s g = []"
proof (induction r arbitrary: s g)
  case (Seq a b)
  show ?case
  proof (cases "needs c a")
    case True
    with Seq show ?thesis by simp
  next
    case False
    with Seq.prems have nb: "needs c b" by simp
    have "rmatch b s' g' = []" if "(s', g') \<in> set (rmatch a s g)" for s' g'
      using rmatch_set [OF that] Seq.prems(2) by (intro Seq.IH(2) nb) auto
    then show ?thesis by auto
  qed
qed (auto split: list.splits)

lemma needs_seqs: "needs c (seqs rs) = (\<exists>r \<in> set rs. needs c r)"
  by (induction rs) auto

lemma needs_lit: "needs c (lit t) = (c \<in> set t)"
  by (induction t) (auto simp: lit_def)

lemma sub_go_no_match:
  assumes "\<And>t. set t \<subseteq> set s \<Longrightarrow> match_here r t = None"
  shows "sub_go r repl 0 s = s"
  using assms
proof (induction s)
  case Nil
  then show ?case by simp
next
  case (Cons c cs)
  have "match_here r (c # cs) = None" by (rule Cons.prems) simp
  moreover have "sub_go r repl 0 cs = cs"
    by (rule Cons.IH, rule Cons.prems) auto
  ultimately show ?case by simp
qed

lemma re_sub_needs:
  assumes "needs c r" "c \<notin> set s"
  shows "re_sub r repl s = s"
  unfolding re_sub_def
proof (rule sub_go_no_match)
  fix t assume "set t \<subseteq> set s"
  with assms have "rmatch r t [] = []" by (intro needs_no_match) auto
  then show "match_here r t = None" by (simp add: match_here_def)
qed

lemma re_sub_underscores:
  assumes "CHR ''_'' \<notin> set s"
  shows "re_sub re_underscores repl s = s"
  unfolding re_sub_def
proof (rule sub_go_no_match)
  fix t assume t: "set t \<subseteq> set s"
  with assms have "takeWhile (\<lambda>c. c = CHR ''_'') t = []" by (cases t) auto
  then show "match_here re_underscores t = None"
    by (simp add: match_here_def re_underscores_def)
qed

lemma strip_no_space:
  assumes "\<forall>c \<in> set s. \<not> py_isspace c"
  shows "strip s = s"
proof -
  have d: "dropWhile py_isspace t = t" if "\<forall>c \<in> set t. \<not> py_isspace c" for t
    using that by (cases t) auto
  have "dropWhile py_isspace (rev s) = rev s" using assms by (intro d) simp
  then show ?thesis using d [OF assms] by (simp add: strip_def)
qed

lemma match_digits:
  "match_here re_digits s =
     (if takeWhile py_isdecimal s = [] then None
      else Some (length (takeWhile py_isdecimal s), []))"
proof (cases "takeWhile py_isdecimal s")
  case Nil
  then show ?thesis by (simp add: match_here_def re_digits_def)
next
  case (Cons a t)
  have le: "length (takeWhile py_isdecimal s) \<le> length s" by (rule length_takeWhile_le)
  have "[1 ..< Suc (length (takeWhile py_isdecimal s))] =
        [1 ..< length (takeWhile py_isdecimal s)] @ [length (takeWhile py_isdecimal s)]"
    using Cons by simp
  then have "rev [1 ..< Suc (length (takeWhile py_isdecimal s))] =
        length (takeWhile py_isdecimal s) # rev [1 ..< length (takeWhile py_isdecimal s)]"
    by simp
  then show ?thesis using Cons le
    by (simp add: match_here_def re_digits_def del: upt_Suc)
qed

lemma digits_sub_mem:
  "x \<in> set (sub_go re_digits (\<lambda>g. t) k s) \<Longrightarrow> (x \<in> set s \<and> \<not> py_isdecimal x) \<or> x \<in> set t"
proof (induction s arbitrary: k)
  case Nil
  have "sub_go re_digits (\<lambda>g. t) k [] = []" by (simp add: match_digits)
  with Nil have "x \<in> set []" by (simp only:)
  then have False by (simp only: list.set empty_iff)
  then show ?case by (rule FalseE)
next
  case (Cons c cs)
  show ?case
  proof (cases "0 < k")
    case True
    with Cons.prems have "x \<in> set (sub_go re_digits (\<lambda>g. t) (k - 1) cs)" by simp
    from Cons.IH [OF this] show ?thesis by auto
  next
    case False
    show ?thesis
    proof (cases "py_isdecimal c")
      case True
      with False Cons.prems have "x \<in> set t \<or>
          x \<in> set (sub_go re_digits (\<lambda>g. t) (length (takeWhile py_isdecimal cs)) cs)"
        by (auto simp: match_digits)
      with Cons.IH show ?thesis by auto
    next
      case nd: False
      with False Cons.prems have "x = c \<or> x \<in> set (sub_go re_digits (\<lambda>g. t) 0 cs)"
        by (auto simp: match_digits)
      with Cons.IH nd show ?thesis by auto
    qed
  qed
qed

lemma digits_sub_set:
  "set (sub_go re_digits (\<lambda>g. t) k s) \<subseteq> {c \<in> set s. \<not> py_isdecimal c} \<union> set t"
  using digits_sub_mem [of _ t k s] by auto

lemma digits_sub_id:
  assumes "\<forall>c \<in> set s. \<not> py_isdecimal c"
  shows "re_sub re_digits repl s = s"
  unfolding re_sub_def
proof (rule sub_go_no_match)
  fix t assume "set t \<subseteq> set s"
  with assms have "takeWhile py_isdecimal t = []" by (cases t) auto
  then show "match_here re_digits t = None" by (simp add: match_digits)
qed

lemma plain_star: "plain_char CHR ''*''" "\<not> py_isdecimal CHR ''*''"
  by (simp_all add: plain_char_def py_isspace_def py_isdecimal_def code_def)

lemma normalize_frame_plain:
  assumes "\<forall>c \<in> set f. plain_char c"
  shows "normalize_frame f = re_sub re_digits (\<lambda>g. ''*'') f"
proof -
  from assms have nb: "CHR '']'' \<notin> set f" and nu: "CHR ''_'' \<notin> set f"
    and nd: "CHR ''-'' \<notin> set f" and ns: "CHR ''$'' \<notin> set f"
    and nw: "\<forall>c \<in> set f. \<not> py_isspace c"
    by (auto simp: plain_char_def)
  have a: "re_sub re_annotation (\<lambda>g. []) f = f"
    using nb by (intro re_sub_needs [of "CHR '']''"]) (simp_all add: re_annotation_def)
  have u: "re_sub re_underscores (\<lambda>g. []) f = f" using nu by (rule re_sub_underscores)
  have s: "strip f = f" using nw by (rule strip_no_space)
  have sn: "re_sub re_snappy (\<lambda>g. ''snappy-*-libsnappyjava.so'') f = f"
    using nd by (intro re_sub_needs [of "CHR ''-''"]) (simp_all add: re_snappy_def needs_lit)
  have n: "re_sub re_native (\<lambda>g. group g 1 @ ''-*-'' @ group g 3) f = f"
    using nd by (intro re_sub_needs [of "CHR ''-''"]) (simp_all add: re_native_def)
  have h2: "re_sub re_hex2 (\<lambda>g. ''$$*'') f = f"
    using ns by (intro re_sub_needs [of "CHR ''$''"]) (simp_all add: re_hex2_def)
  have h1: "re_sub re_hex1 (\<lambda>g. ''$*'') f = f"
    using ns by (intro re_sub_needs [of "CHR ''$''"]) (simp_all add: re_hex1_def)
  show ?thesis unfolding normalize_frame_def Let_def a u s
    by (simp only: sn n h2 h1 if_cancel)
qed

lemma normalize_frame_plain_result:
  assumes "\<forall>c \<in> set f. plain_char c"
  shows "\<forall>c \<in> set (normalize_frame f). plain_char c \<and> \<not> py_isdecimal c"
    and "set (normalize_frame f) \<subseteq> set f \<union> {CHR ''*''}"
proof -
  have sub: "set (normalize_frame f) \<subseteq> {c \<in> set f. \<not> py_isdecimal c} \<union> set ''*''"
    unfolding normalize_frame_plain [OF assms] re_sub_def by (rule digits_sub_set)
  then show "\<forall>c \<in> set (normalize_frame f). plain_char c \<and> \<not> py_isdecimal c"
    using assms plain_star by auto
  from sub show "set (normalize_frame f) \<subseteq> set f \<union> {CHR ''*''}" by auto
qed

lemma normalize_frame_idem:
  assumes "\<forall>c \<in> set f. plain_char c"
  shows "normalize_frame (normalize_frame f) = normalize_frame f"
proof -
  from normalize_frame_plain_result(1) [OF assms]
  have p: "\<forall>c \<in> set (normalize_frame f). plain_char c"
    and d: "\<forall>c \<in> set (normalize_frame f). \<not> py_isdecimal c"
    by auto
  show ?thesis unfolding normalize_frame_plain [OF p] using d by (rule digits_sub_id)
qed

lemma split_parts: "f \<in> set (split c s) \<Longrightarrow> set f \<subseteq> set s \<and> c \<notin> set f"
proof (induction s arbitrary: f)
  case Nil
  then show ?case by simp
next
  case (Cons x xs)
  obtain w ws where w: "split c xs = w # ws"
    using split_nonempty [of c xs] by (cases "split c xs") auto
  have ih: "set g \<subseteq> set xs \<and> c \<notin> set g" if "g \<in> set (w # ws)" for g
    using Cons.IH [of g] that w by simp
  show ?case
  proof (cases "x = c")
    case True
    with Cons.prems w ih show ?thesis by auto
  next
    case False
    with Cons.prems w have "f = x # w \<or> f \<in> set ws" by auto
    with ih [of w] ih [of f] False show ?thesis by auto
  qed
qed

lemma split_append_sep:
  assumes "c \<notin> set x"
  shows "split c (x @ c # rest) = x # split c rest"
  using assms by (induction x) auto

lemma split_join:
  assumes "xs \<noteq> []" "\<forall>x \<in> set xs. c \<notin> set x"
  shows "split c (join c xs) = xs"
  using assms
proof (induction c xs rule: join.induct)
  case (1 c)
  then show ?case by simp
next
  case (2 c x)
  then show ?case by (simp add: split_no_sep)
next
  case (3 c x y ys)
  then show ?case by (simp add: split_append_sep)
qed

text \<open>
  Claim C3, as stated, fails: only the last of two trailing annotations is removed, so
  \<open>a[j][j]\<close> normalizes to \<open>a[j]\<close>, and that to \<open>a\<close>.
\<close>

theorem normalize_not_idempotent:
  "normalize_stack_trace ''a[j][j]'' = ''a[j]'' \<and>
   normalize_stack_trace (normalize_stack_trace ''a[j][j]'') = ''a'' \<and>
   normalize_stack_trace (normalize_stack_trace ''a[j][j]'') \<noteq>
     normalize_stack_trace ''a[j][j]''"
  by code_simp

text \<open>
  Claim C3, amended: frame normalization is idempotent on plain stack traces. For every
  stack trace \<open>s\<close> that contains no whitespace and none of the characters \<open>]\<close>,
  \<open>_\<close>, \<open>-\<close> and \<open>$\<close>, \<open>normalize(normalize(s))\<close> equals \<open>normalize(s)\<close>.
\<close>

theorem normalize_idempotent_on_plain:
  assumes "\<forall>c \<in> set s. plain_char c"
  shows "normalize_stack_trace (normalize_stack_trace s) = normalize_stack_trace s"
proof -
  let ?frames = "split CHR '';'' s"
  have fr: "\<forall>c \<in> set f. plain_char c" "CHR '';'' \<notin> set f" if "f \<in> set ?frames" for f
    using split_parts [OF that] assms by auto
  have no_sep: "\<forall>x \<in> set (map normalize_frame ?frames). CHR '';'' \<notin> set x"
  proof
    fix x assume "x \<in> set (map normalize_frame ?frames)"
    then obtain f where f: "f \<in> set ?frames" "x = normalize_frame f" by auto
    from normalize_frame_plain_result(2) [OF fr(1) [OF f(1)]] fr(2) [OF f(1)]
    show "CHR '';'' \<notin> set x" unfolding f(2) by auto
  qed
  have ne: "map normalize_frame ?frames \<noteq> []" by (simp add: split_nonempty)
  have "split CHR '';'' (normalize_stack_trace s) = map normalize_frame ?frames"
    unfolding normalize_stack_trace_def using ne no_sep by (rule split_join)
  then have "normalize_stack_trace (normalize_stack_trace s) =
      join CHR '';'' (map normalize_frame (map normalize_frame ?frames))"
    by (simp add: normalize_stack_trace_def)
  also have "map normalize_frame (map normalize_frame ?frames) = map normalize_frame ?frames"
    using fr(1) by (simp add: normalize_frame_idem)
  finally show ?thesis by (simp add: normalize_stack_trace_def)
qed

theorem normalize_idempotent_on_plain_witness:
  "(\<forall>c \<in> set ''com.foo.Gen123.run(Gen.java:45);java/lang/Thread9.go''. plain_char c) \<and>
   normalize_stack_trace ''com.foo.Gen123.run(Gen.java:45);java/lang/Thread9.go'' =
     ''com.foo.Gen*.run(Gen.java:*);java/lang/Thread*.go'' \<and>
   normalize_stack_trace
     (normalize_stack_trace ''com.foo.Gen123.run(Gen.java:45);java/lang/Thread9.go'') =
     normalize_stack_trace ''com.foo.Gen123.run(Gen.java:45);java/lang/Thread9.go''"
proof -
  have h: "\<forall>c \<in> set ''com.foo.Gen123.run(Gen.java:45);java/lang/Thread9.go''. plain_char c"
    by code_simp
  have e: "normalize_stack_trace ''com.foo.Gen123.run(Gen.java:45);java/lang/Thread9.go'' =
     ''com.foo.Gen*.run(Gen.java:*);java/lang/Thread*.go''"
    by code_simp
  from normalize_idempotent_on_plain [OF h] h e show ?thesis by (intro conjI)
qed

end
